theory Spec2Isabelle
  imports Complex_Main "HOL-Library.Multiset" "HOL-Library.Sublist"
    "HOL-Library.List_Lexorder" "HOL-Library.Char_ord" "HOL-Library.Product_Lexorder"
begin

text \<open>
  A model of the two engines of the DealMate web client and the proofs of their properties:
  the fraud detection engine (\<open>src/lib/fraud-detection/fraud-detection-engine.ts\<close>: the
  classes \<open>MinHeap\<close>, \<open>Trie\<close> and \<open>FraudDetectionEngine\<close>) and the stack
  optimizer (the class \<open>StackOptimizer\<close> of the StackSmart optimization engine). Each
  method is a function of the same name; a method that changes the object takes the state
  and returns the new one; a loop is a recursive function named after its method, with
  \<open>_loop\<close> added.
\<close>

section \<open>Numbers\<close>

text \<open>
  The engines compute with JavaScript numbers. Rounding is not modelled: a finite number
  is a real, and zero has no sign. What is kept is what decides a comparison: a division by
  zero gives an infinity or NaN, an operation on NaN gives NaN, and every comparison with
  NaN is false. Fields read from the caller's records are finite (\<open>real\<close>); values the
  engine computes are \<open>jsnum\<close>.
\<close>

datatype jsnum = Fin real | PosInf | NegInf | NaN

fun js_lt :: "jsnum \<Rightarrow> jsnum \<Rightarrow> bool" where
  "js_lt NaN _ = False"
| "js_lt _ NaN = False"
| "js_lt (Fin a) (Fin b) = (a < b)"
| "js_lt (Fin _) PosInf = True"
| "js_lt (Fin _) NegInf = False"
| "js_lt PosInf _ = False"
| "js_lt NegInf NegInf = False"
| "js_lt NegInf _ = True"

definition js_gt :: "jsnum \<Rightarrow> jsnum \<Rightarrow> bool" where
  "js_gt a b = js_lt b a"

fun js_sub :: "jsnum \<Rightarrow> jsnum \<Rightarrow> jsnum" where
  "js_sub NaN _ = NaN"
| "js_sub _ NaN = NaN"
| "js_sub (Fin a) (Fin b) = Fin (a - b)"
| "js_sub (Fin _) PosInf = NegInf"
| "js_sub (Fin _) NegInf = PosInf"
| "js_sub PosInf PosInf = NaN"
| "js_sub PosInf _ = PosInf"
| "js_sub NegInf NegInf = NaN"
| "js_sub NegInf _ = NegInf"

text \<open>The sign of a number: \<open>Some True\<close> for positive, \<open>Some False\<close> for negative,
  \<open>None\<close> for zero and NaN.\<close>

fun js_positive :: "jsnum \<Rightarrow> bool option" where
  "js_positive (Fin a) = (if a = 0 then None else Some (0 < a))"
| "js_positive PosInf = Some True"
| "js_positive NegInf = Some False"
| "js_positive NaN = None"

fun js_mul :: "jsnum \<Rightarrow> jsnum \<Rightarrow> jsnum" where
  "js_mul NaN _ = NaN"
| "js_mul _ NaN = NaN"
| "js_mul (Fin a) (Fin b) = Fin (a * b)"
| "js_mul a b =
     (case (js_positive a, js_positive b) of
        (Some s, Some t) \<Rightarrow> if s = t then PosInf else NegInf
      | _ \<Rightarrow> NaN)"

fun js_div :: "jsnum \<Rightarrow> jsnum \<Rightarrow> jsnum" where
  "js_div NaN _ = NaN"
| "js_div _ NaN = NaN"
| "js_div (Fin a) (Fin b) =
     (if b \<noteq> 0 then Fin (a / b)
      else if a = 0 then NaN
      else if 0 < a then PosInf else NegInf)"
| "js_div (Fin _) _ = Fin 0"
| "js_div a (Fin b) =
     (if (a = PosInf) = (0 \<le> b) then PosInf else NegInf)"
| "js_div _ _ = NaN"

fun Math_abs :: "jsnum \<Rightarrow> jsnum" where
  "Math_abs (Fin a) = Fin \<bar>a\<bar>"
| "Math_abs PosInf = PosInf"
| "Math_abs NegInf = PosInf"
| "Math_abs NaN = NaN"

fun Math_min :: "jsnum \<Rightarrow> jsnum \<Rightarrow> jsnum" where
  "Math_min NaN _ = NaN"
| "Math_min _ NaN = NaN"
| "Math_min a b = (if js_lt b a then b else a)"

section \<open>The fraud detection engine\<close>

subsection \<open>MinHeap\<close>

text \<open>
  \<open>MinHeap<T>\<close> keeps its elements in an array and orders them with the comparison
  function given to the constructor; an element \<open>a\<close> goes above \<open>b\<close> when
  \<open>compareFn(a, b) < 0\<close>. The array is a list, the comparison function a parameter.
  \<open>heapifyUp\<close> and \<open>heapifyDown\<close> are private and are called with an index inside
  the array only.
\<close>

type_synonym 'a compareFn = "'a \<Rightarrow> 'a \<Rightarrow> jsnum"

definition swap :: "'a list \<Rightarrow> nat \<Rightarrow> nat \<Rightarrow> 'a list" where
  "swap h i j = h[i := h ! j, j := h ! i]"

function heapifyUp :: "'a compareFn \<Rightarrow> 'a list \<Rightarrow> nat \<Rightarrow> 'a list" where
  "heapifyUp compareFn h index =
     (let parentIndex = (int index - 1) div 2 in
      if parentIndex \<ge> 0 \<and> js_lt (compareFn (h ! index) (h ! nat parentIndex)) (Fin 0)
      then heapifyUp compareFn (swap h index (nat parentIndex)) (nat parentIndex)
      else h)"
  by pat_completeness auto
termination
  by (relation "measure (\<lambda>(c, h, i). i)") auto

declare heapifyUp.simps [simp del]

function heapifyDown :: "'a compareFn \<Rightarrow> 'a list \<Rightarrow> nat \<Rightarrow> 'a list" where
  "heapifyDown compareFn h index =
     (let leftChild = 2 * index + 1;
          rightChild = 2 * index + 2;
          smallest = index;
          smallest = (if leftChild < length h
              \<and> js_lt (compareFn (h ! leftChild) (h ! smallest)) (Fin 0)
            then leftChild else smallest);
          smallest = (if rightChild < length h
              \<and> js_lt (compareFn (h ! rightChild) (h ! smallest)) (Fin 0)
            then rightChild else smallest)
      in if smallest \<noteq> index
         then heapifyDown compareFn (swap h index smallest) smallest
         else h)"
  by pat_completeness auto
termination
  by (relation "measure (\<lambda>(c, h, i). length h - i)")
     (auto simp: swap_def Let_def split: if_splits)

declare heapifyDown.simps [simp del]

definition heap_insert :: "'a compareFn \<Rightarrow> 'a list \<Rightarrow> 'a \<Rightarrow> 'a list" where
  "heap_insert compareFn h v = heapifyUp compareFn (h @ [v]) (length (h @ [v]) - 1)"

definition extractMin :: "'a compareFn \<Rightarrow> 'a list \<Rightarrow> 'a option \<times> 'a list" where
  "extractMin compareFn h =
     (if length h = 0 then (None, h)
      else if length h = 1 then (Some (last h), butlast h)
      else let m = h ! 0;
               h' = (butlast h)[0 := last h]
           in (Some m, heapifyDown compareFn h' 0))"

definition peek :: "'a list \<Rightarrow> 'a option" where
  "peek h = (if h = [] then None else Some (h ! 0))"

definition heap_size :: "'a list \<Rightarrow> nat" where
  "heap_size h = length h"

subsection \<open>Trie\<close>

text \<open>
  A \<open>TrieNode\<close> has a map from characters to child nodes and the flag
  \<open>isEndOfPattern\<close>. Strings are lists of characters; the character a pattern is
  inserted under and the character \<open>text[i]\<close> read by the search are the same unit.
\<close>

datatype TrieNode = TrieNode (isEndOfPattern: bool) (children: "char \<Rightarrow> TrieNode option")

definition new_TrieNode :: TrieNode where
  "new_TrieNode = TrieNode False (\<lambda>_. None)"

fun trie_insert :: "TrieNode \<Rightarrow> string \<Rightarrow> TrieNode" where
  "trie_insert (TrieNode e m) [] = TrieNode True m"
| "trie_insert (TrieNode e m) (c # cs) =
     TrieNode e (m(c \<mapsto> trie_insert (case m c of None \<Rightarrow> new_TrieNode | Some t \<Rightarrow> t) cs))"

text \<open>\<open>walk current rest\<close> is the loop of \<open>searchFromIndex\<close>, at node \<open>current\<close> with
  \<open>rest\<close> the text from the loop index on.\<close>

fun walk :: "TrieNode \<Rightarrow> string \<Rightarrow> bool" where
  "walk current [] = False"
| "walk current (c # rest) =
     (case children current c of
        None \<Rightarrow> False
      | Some next \<Rightarrow> if isEndOfPattern next then True else walk next rest)"

definition searchFromIndex :: "TrieNode \<Rightarrow> string \<Rightarrow> nat \<Rightarrow> bool" where
  "searchFromIndex trie txt startIndex = walk trie (drop startIndex txt)"

definition trie_search :: "TrieNode \<Rightarrow> string \<Rightarrow> bool" where
  "trie_search trie txt = list_ex (searchFromIndex trie txt) [0 ..< length txt]"

subsection \<open>Records of the engine\<close>

text \<open>
  The interfaces \<open>Deal\<close>, \<open>Seller\<close>, \<open>PriceHistory\<close> and
  \<open>FraudCheckResult\<close>. The field \<open>id\<close> is written \<open>deal_id\<close>, \<open>seller_id\<close>.
  Timestamps are the milliseconds of \<open>Date.now()\<close>, integers. The \<open>reason\<close> of a
  result is a template string; the model keeps the template's name and the numbers put into
  it, not the rendered text.
\<close>

record Deal =
  deal_id :: string
  title :: string
  originalPrice :: real
  discountedPrice :: real
  category :: string
  sellerId :: string
  url :: string
  timestamp :: int

record Seller =
  seller_id :: string
  seller_name :: string
  rating :: real
  reviewCount :: real

record PricePoint =
  price :: real
  price_timestamp :: int

record PriceHistory =
  productId :: string
  prices :: "PricePoint list"

datatype reason =
    DiscountExceedsThreshold jsnum jsnum
  | LowRatingOrFewReviews real real
  | MatchesPhishingPattern
  | PriceDeviates jsnum jsnum
  | RapidActions nat
  | ActionsInLastMinute nat

record FraudCheckResult =
  isFraudulent :: bool
  fraudType :: "string option"
  confidence :: jsnum
  reason :: "reason option"

record Anomaly =
  dealId :: string
  anomalyScore :: jsnum

text \<open>The comparison function of the anomaly heap: \<open>(a, b) => b.anomalyScore - a.anomalyScore\<close>.\<close>

definition anomalyCompare :: "Anomaly compareFn" where
  "anomalyCompare a b = js_sub (anomalyScore b) (anomalyScore a)"

record Engine =
  phishingTrie :: TrieNode
  userActivityCache :: "string \<rightharpoonup> int list"
  anomalyHeap :: "Anomaly list"
  sellerReputationCache :: "string \<rightharpoonup> Seller"
  priceHistoryCache :: "string \<rightharpoonup> PriceHistory"

subsection \<open>categoryThresholds\<close>

text \<open>
  \<open>categoryThresholds\<close> is an object literal with the five keys below, read as
  \<open>this.categoryThresholds[deal.category] || this.categoryThresholds.default\<close>. Reading a
  key of an object literal also finds the properties every object inherits from
  \<open>Object.prototype\<close>; these are functions (or, for \<open>__proto__\<close>, an object), so they
  are truthy and their numeric value is NaN.
\<close>

datatype property = Undefined | NumberValue real | InheritedValue

definition Object_prototype_keys :: "string list" where
  "Object_prototype_keys =
     [''constructor'', ''hasOwnProperty'', ''isPrototypeOf'', ''propertyIsEnumerable'',
      ''toLocaleString'', ''toString'', ''valueOf'', ''__proto__'',
      ''__defineGetter__'', ''__defineSetter__'', ''__lookupGetter__'', ''__lookupSetter__'']"

definition categoryThresholds :: "string \<Rightarrow> property" where
  "categoryThresholds key =
     (if key = ''electronics'' then NumberValue 0.7
      else if key = ''fashion'' then NumberValue 0.9
      else if key = ''home'' then NumberValue 0.8
      else if key = ''food'' then NumberValue 0.6
      else if key = ''default'' then NumberValue 0.85
      else if key \<in> set Object_prototype_keys then InheritedValue
      else Undefined)"

fun truthy :: "property \<Rightarrow> bool" where
  "truthy Undefined = False"
| "truthy (NumberValue x) = (x \<noteq> 0)"
| "truthy InheritedValue = True"

fun toNumber :: "property \<Rightarrow> jsnum" where
  "toNumber Undefined = NaN"
| "toNumber (NumberValue x) = Fin x"
| "toNumber InheritedValue = NaN"

subsection \<open>The checks\<close>

definition fakeDealVerdict :: "jsnum \<Rightarrow> jsnum \<Rightarrow> FraudCheckResult" where
  "fakeDealVerdict discountPercentage thresholdPercentage =
     \<lparr> isFraudulent = True,
       fraudType = Some ''fake_deal'',
       confidence = Math_min (js_div (js_sub discountPercentage thresholdPercentage) (Fin 20))
                      (Fin 0.95),
       reason = Some (DiscountExceedsThreshold discountPercentage thresholdPercentage) \<rparr>"

definition discountPercentageOf :: "Deal \<Rightarrow> jsnum" where
  "discountPercentageOf deal =
     js_mul (js_div (Fin (originalPrice deal - discountedPrice deal)) (Fin (originalPrice deal)))
       (Fin 100)"

definition thresholdPercentageOf :: "Deal \<Rightarrow> jsnum" where
  "thresholdPercentageOf deal =
     (let threshold = (if truthy (categoryThresholds (category deal))
                       then categoryThresholds (category deal)
                       else categoryThresholds ''default'')
      in js_mul (toNumber threshold) (Fin 100))"

text \<open>\<open>detectFakeDeals\<close>: the loop over the deals, with the anomaly heap and the
  results threaded through.\<close>

fun detectFakeDeals_loop ::
  "Deal list \<Rightarrow> Anomaly list \<Rightarrow> FraudCheckResult list \<Rightarrow> FraudCheckResult list \<times> Anomaly list"
where
  "detectFakeDeals_loop [] heap results = (results, heap)"
| "detectFakeDeals_loop (deal # deals) heap results =
     (let discountPercentage = discountPercentageOf deal;
          thresholdPercentage = thresholdPercentageOf deal
      in if js_gt discountPercentage thresholdPercentage
         then let anomalyScore = js_sub discountPercentage thresholdPercentage
              in detectFakeDeals_loop deals
                   (heap_insert anomalyCompare heap
                      \<lparr> dealId = deal_id deal, anomalyScore = anomalyScore \<rparr>)
                   (results @ [fakeDealVerdict discountPercentage thresholdPercentage])
         else detectFakeDeals_loop deals heap results)"

definition detectFakeDeals :: "Deal list \<Rightarrow> Engine \<Rightarrow> FraudCheckResult list \<times> Engine" where
  "detectFakeDeals deals s =
     (case detectFakeDeals_loop deals (anomalyHeap s) [] of
        (results, heap) \<Rightarrow> (results, s\<lparr> anomalyHeap := heap \<rparr>))"

definition counterfeitVerdict :: "Seller \<Rightarrow> FraudCheckResult" where
  "counterfeitVerdict seller =
     \<lparr> isFraudulent = True,
       fraudType = Some ''counterfeit_product'',
       confidence = (if rating seller < 2.5 then Fin 0.9 else Fin 0.7),
       reason = Some (LowRatingOrFewReviews (rating seller) (reviewCount seller)) \<rparr>"

fun detectCounterfeitProducts_loop ::
  "(string \<rightharpoonup> Seller) \<Rightarrow> string list \<Rightarrow> FraudCheckResult list \<Rightarrow> FraudCheckResult list"
where
  "detectCounterfeitProducts_loop cache [] results = results"
| "detectCounterfeitProducts_loop cache (sid # sellerIds) results =
     (case cache sid of
        None \<Rightarrow> detectCounterfeitProducts_loop cache sellerIds results
      | Some seller \<Rightarrow>
          if rating seller < 3.5 \<or> reviewCount seller < 50
          then detectCounterfeitProducts_loop cache sellerIds (results @ [counterfeitVerdict seller])
          else detectCounterfeitProducts_loop cache sellerIds results)"

definition detectCounterfeitProducts :: "string list \<Rightarrow> Engine \<Rightarrow> FraudCheckResult list" where
  "detectCounterfeitProducts sellerIds s =
     detectCounterfeitProducts_loop (sellerReputationCache s) sellerIds []"

text \<open>\<open>toLowerCase\<close> on the letters a character can hold here: A to Z.\<close>

definition lower_char :: "char \<Rightarrow> char" where
  "lower_char c =
     (if CHR ''A'' \<le> c \<and> c \<le> CHR ''Z'' then char_of (of_char c + (32::nat)) else c)"

definition toLowerCase :: "string \<Rightarrow> string" where
  "toLowerCase s = map lower_char s"

definition phishingVerdict :: FraudCheckResult where
  "phishingVerdict =
     \<lparr> isFraudulent = True,
       fraudType = Some ''phishing_link'',
       confidence = Fin 0.95,
       reason = Some MatchesPhishingPattern \<rparr>"

fun detectPhishingLinks_loop ::
  "TrieNode \<Rightarrow> string list \<Rightarrow> FraudCheckResult list \<Rightarrow> FraudCheckResult list"
where
  "detectPhishingLinks_loop trie [] results = results"
| "detectPhishingLinks_loop trie (u # urls) results =
     (if trie_search trie (toLowerCase u)
      then detectPhishingLinks_loop trie urls (results @ [phishingVerdict])
      else detectPhishingLinks_loop trie urls results)"

definition detectPhishingLinks :: "string list \<Rightarrow> Engine \<Rightarrow> FraudCheckResult list" where
  "detectPhishingLinks urls s = detectPhishingLinks_loop (phishingTrie s) urls []"

text \<open>\<open>calculateMedian\<close>: reading past the ends of the empty array gives
  \<open>undefined + undefined\<close>, which is NaN.\<close>

definition calculateMedian :: "real list \<Rightarrow> jsnum" where
  "calculateMedian numbers =
     (let sorted = sort numbers;
          mid = length sorted div 2
      in if length sorted mod 2 = 0
         then (if mid = 0 then NaN else Fin ((sorted ! (mid - 1) + sorted ! mid) / 2))
         else Fin (sorted ! mid))"

definition notFraudulent :: FraudCheckResult where
  "notFraudulent =
     \<lparr> isFraudulent = False, fraudType = None, confidence = Fin 0, reason = None \<rparr>"

definition detectPriceManipulation :: "string \<Rightarrow> real \<Rightarrow> Engine \<Rightarrow> FraudCheckResult" where
  "detectPriceManipulation pid currentPrice s =
     (case priceHistoryCache s pid of
        None \<Rightarrow> notFraudulent
      | Some history \<Rightarrow>
          if length (prices history) < 3 then notFraudulent
          else
            let medianPrice = calculateMedian (map price (prices history));
                deviation = js_div (Math_abs (js_sub (Fin currentPrice) medianPrice)) medianPrice
            in if js_gt deviation (Fin 0.3)
               then \<lparr> isFraudulent = True,
                      fraudType = Some ''price_manipulation'',
                      confidence = Math_min (js_mul deviation (Fin 2)) (Fin 0.95),
                      reason = Some (PriceDeviates deviation medianPrice) \<rparr>
               else notFraudulent)"

text \<open>\<open>detectSuspiciousUserBehavior\<close> reads the clock once; \<open>now\<close> is that reading.
  The parameter \<open>action\<close> is not used by the source.\<close>

definition detectSuspiciousUserBehavior ::
  "int \<Rightarrow> string \<Rightarrow> string \<Rightarrow> Engine \<Rightarrow> FraudCheckResult \<times> Engine"
where
  "detectSuspiciousUserBehavior now userId action s =
     (let userTimestamps = (case userActivityCache s userId of None \<Rightarrow> [] | Some ts \<Rightarrow> ts);
          userTimestamps = userTimestamps @ [now];
          recentTimestamps = filter (\<lambda>ts. now - ts < 60000) userTimestamps;
          s' = s\<lparr> userActivityCache := (userActivityCache s)(userId \<mapsto> recentTimestamps) \<rparr>;
          oneSecondAgo = now - 1000;
          rapidActions = length (filter (\<lambda>ts. ts > oneSecondAgo) recentTimestamps)
      in if rapidActions > 10
         then (\<lparr> isFraudulent = True,
                 fraudType = Some ''suspicious_behavior'',
                 confidence = Math_min (js_div (Fin (real rapidActions)) (Fin 15)) (Fin 0.95),
                 reason = Some (RapidActions rapidActions) \<rparr>, s')
         else if length recentTimestamps > 100
         then (\<lparr> isFraudulent = True,
                 fraudType = Some ''bot_behavior'',
                 confidence = Fin 0.85,
                 reason = Some (ActionsInLastMinute (length recentTimestamps)) \<rparr>, s')
         else (notFraudulent, s'))"

text \<open>\<open>getTopAnomalies\<close>: the extraction loop, counted by \<open>i\<close>, then the
  re-insertion of what was extracted. The parameter \<open>count\<close> is an integer, written \<open>count'\<close>.\<close>

function getTopAnomalies_loop ::
  "int \<Rightarrow> int \<Rightarrow> Anomaly list \<Rightarrow> Anomaly list \<Rightarrow> Anomaly list \<times> Anomaly list"
where
  "getTopAnomalies_loop count' i heap anomalies =
     (if i < count' \<and> heap_size heap > 0
      then case extractMin anomalyCompare heap of
             (anomaly, heap') \<Rightarrow>
               getTopAnomalies_loop count' (i + 1) heap'
                 (case anomaly of None \<Rightarrow> anomalies | Some a \<Rightarrow> anomalies @ [a])
      else (anomalies, heap))"
  by pat_completeness auto
termination
  by (relation "measure (\<lambda>(count', i, heap, anomalies). nat (count' - i))") auto

declare getTopAnomalies_loop.simps [simp del]

definition getTopAnomalies :: "int \<Rightarrow> Engine \<Rightarrow> Anomaly list \<times> Engine" where
  "getTopAnomalies count' s =
     (case getTopAnomalies_loop count' 0 (anomalyHeap s) [] of
        (anomalies, heap) \<Rightarrow>
          (anomalies,
           s\<lparr> anomalyHeap := fold (\<lambda>a h. heap_insert anomalyCompare h a) anomalies heap \<rparr>))"

text \<open>\<open>detectFraud\<close> runs the four checks on one deal; \<open>sellerId\<close> is optional,
  and the check of the seller is skipped when it is absent or the empty string.\<close>

definition detectFraud ::
  "Deal \<Rightarrow> string option \<Rightarrow> Engine \<Rightarrow> FraudCheckResult list \<times> Engine"
where
  "detectFraud deal sellerId_opt s =
     (case detectFakeDeals [deal] s of
        (fakeDealsResult, s') \<Rightarrow>
          let results = (if length fakeDealsResult > 0 then fakeDealsResult else []);
              counterfeitsResult =
                (case sellerId_opt of
                   None \<Rightarrow> []
                 | Some sid \<Rightarrow> if sid = [] then [] else detectCounterfeitProducts [sid] s');
              results = (if length counterfeitsResult > 0 then results @ counterfeitsResult
                         else results);
              phishingResult = detectPhishingLinks [url deal] s';
              results = (if length phishingResult > 0 then results @ phishingResult else results);
              priceManipulationResult = detectPriceManipulation (deal_id deal) (originalPrice deal) s';
              results = (if isFraudulent priceManipulationResult
                         then results @ [priceManipulationResult] else results)
          in (results, s'))"

subsection \<open>Updates and the constructor\<close>

definition updateSellerReputation :: "Seller \<Rightarrow> Engine \<Rightarrow> Engine" where
  "updateSellerReputation seller s =
     s\<lparr> sellerReputationCache := (sellerReputationCache s)(seller_id seller \<mapsto> seller) \<rparr>"

definition addPhishingPattern :: "string \<Rightarrow> Engine \<Rightarrow> Engine" where
  "addPhishingPattern pattern s =
     s\<lparr> phishingTrie := trie_insert (phishingTrie s) (toLowerCase pattern) \<rparr>"

text \<open>\<open>updatePriceHistory\<close> reads the clock twice: \<open>now1\<close> stamps the new price,
  \<open>now2\<close> gives the thirty days.\<close>

definition updatePriceHistory :: "int \<Rightarrow> int \<Rightarrow> string \<Rightarrow> real \<Rightarrow> Engine \<Rightarrow> Engine" where
  "updatePriceHistory now1 now2 pid p s =
     (let history = (case priceHistoryCache s pid of
                       None \<Rightarrow> \<lparr> productId = pid, prices = [] \<rparr>
                     | Some h \<Rightarrow> h);
          history = history\<lparr> prices := prices history @ [\<lparr> price = p, price_timestamp = now1 \<rparr>] \<rparr>;
          thirtyDaysAgo = now2 - 30 * 86400000;
          history = history\<lparr> prices := filter (\<lambda>q. price_timestamp q > thirtyDaysAgo) (prices history) \<rparr>
      in s\<lparr> priceHistoryCache := (priceHistoryCache s)(pid \<mapsto> history) \<rparr>)"

definition clearUserActivityCache :: "Engine \<Rightarrow> Engine" where
  "clearUserActivityCache s = s\<lparr> userActivityCache := Map.empty \<rparr>"

definition phishingPatterns :: "string list" where
  "phishingPatterns =
     [''bit.ly/scam'', ''tinyurl.com/fake'', ''phishing-site.com'', ''amazom.com'',
      ''amaz0n.com'', ''flipkrt.com'', ''paypal-secure.fake'', ''banking-login.phish'',
      ''free-iphone-winner'', ''click-here-now.suspicious'', ''urgent-action-required'',
      ''verify-account.scam'']"

definition initialSellers :: "Seller list" where
  "initialSellers =
     [\<lparr> seller_id = ''seller1'', seller_name = ''TechStore Pro'', rating = 4.8, reviewCount = 1250 \<rparr>,
      \<lparr> seller_id = ''seller2'', seller_name = ''FashionHub'', rating = 4.5, reviewCount = 890 \<rparr>,
      \<lparr> seller_id = ''seller3'', seller_name = ''SuspiciousSeller'', rating = 2.1, reviewCount = 12 \<rparr>,
      \<lparr> seller_id = ''seller4'', seller_name = ''NewSeller'', rating = 3.2, reviewCount = 25 \<rparr>,
      \<lparr> seller_id = ''seller5'', seller_name = ''TrustedMart'', rating = 4.9, reviewCount = 5420 \<rparr>]"

text \<open>The mock price histories; each timestamp is a reading of the clock at construction,
  all taken as \<open>now\<close>.\<close>

definition initialHistories :: "int \<Rightarrow> PriceHistory list" where
  "initialHistories now =
     [\<lparr> productId = ''product1'',
        prices = [\<lparr> price = 1000, price_timestamp = now - 86400000 * 7 \<rparr>,
                  \<lparr> price = 1050, price_timestamp = now - 86400000 * 5 \<rparr>,
                  \<lparr> price = 980, price_timestamp = now - 86400000 * 3 \<rparr>,
                  \<lparr> price = 1020, price_timestamp = now - 86400000 \<rparr>] \<rparr>,
      \<lparr> productId = ''product2'',
        prices = [\<lparr> price = 500, price_timestamp = now - 86400000 * 10 \<rparr>,
                  \<lparr> price = 520, price_timestamp = now - 86400000 * 7 \<rparr>,
                  \<lparr> price = 510, price_timestamp = now - 86400000 * 3 \<rparr>,
                  \<lparr> price = 1500, price_timestamp = now \<rparr>] \<rparr>]"

definition new_Engine :: "int \<Rightarrow> Engine" where
  "new_Engine now =
     \<lparr> phishingTrie = fold (\<lambda>pattern t. trie_insert t pattern) phishingPatterns new_TrieNode,
       userActivityCache = Map.empty,
       anomalyHeap = [],
       sellerReputationCache =
         fold (\<lambda>seller m. m(seller_id seller \<mapsto> seller)) initialSellers Map.empty,
       priceHistoryCache =
         fold (\<lambda>history m. m(productId history \<mapsto> history)) (initialHistories now) Map.empty \<rparr>"

section \<open>The stack optimizer\<close>

subsection \<open>Records of the optimizer\<close>

text \<open>
  The optimizer's interfaces \<open>Deal\<close>, \<open>StackBreakdown\<close>, \<open>StackResult\<close> and
  \<open>OptimizationConstraints\<close>. Its \<open>Deal\<close> is not the fraud engine's and is written
  \<open>StackDeal\<close>, with the fields \<open>id\<close>, \<open>type\<close>, \<open>value\<close> and \<open>category\<close>
  written \<open>sd_id\<close>, \<open>sd_type\<close>, \<open>sd_value\<close> and \<open>sd_category\<close>. An optional
  field is an \<open>option\<close>. The name of a breakdown line is \<open>deal.code\<close> or, when the
  code is absent or empty, a template of the type and the value; the model keeps the parts.
\<close>

datatype DealType = coupon | cashback | points | discount | gift_card

fun typeName :: "DealType \<Rightarrow> string" where
  "typeName coupon = ''coupon''"
| "typeName cashback = ''cashback''"
| "typeName points = ''points''"
| "typeName discount = ''discount''"
| "typeName gift_card = ''gift-card''"

datatype ValueType = percentage | fixed

record StackDeal =
  sd_id :: string
  sd_type :: DealType
  code :: "string option"
  sd_value :: real
  valueType :: ValueType
  minPurchase :: "real option"
  maxDiscount :: "real option"
  sd_category :: "string list option"
  excludes :: "string list option"
  stackable :: bool
  stacksWith :: "string list option"
  priority :: real
  expiresAt :: "string option"

datatype DealName = CodeName string | TypeValueName DealType real bool

record StackBreakdown =
  bd_dealId :: string
  dealName :: DealName
  savings :: real
  priceAfter :: real
  applied :: bool
  bd_reason :: "string option"

datatype StackResult =
  StackResult (deals: "StackDeal list") (totalSavings: real) (finalPrice: real)
    (breakdown: "StackBreakdown list") (warnings: "string list option")
    (alternativeStacks: "StackResult list option")

definition set_warnings :: "string list \<Rightarrow> StackResult \<Rightarrow> StackResult" where
  "set_warnings w r =
     StackResult (deals r) (totalSavings r) (finalPrice r) (breakdown r) (Some w)
       (alternativeStacks r)"

definition set_alternativeStacks :: "StackResult list \<Rightarrow> StackResult \<Rightarrow> StackResult" where
  "set_alternativeStacks alts r =
     StackResult (deals r) (totalSavings r) (finalPrice r) (breakdown r) (warnings r)
       (Some alts)"

record OptimizationConstraints =
  maxDeals :: "real option"
  preferredTypes :: "DealType list option"
  excludeTypes :: "DealType list option"
  minSavings :: "real option"
  timeLimit :: "real option"

subsection \<open>Applying deals\<close>

text \<open>\<open>deal.minPurchase && ...\<close> and \<open>if (deal.maxDiscount)\<close> test the field for
  truthiness: an absent field and the number 0 both count as absent.\<close>

definition applyDeal :: "real \<Rightarrow> StackDeal \<Rightarrow> real \<Rightarrow> real" where
  "applyDeal currentPrice deal basePrice =
     (if (case minPurchase deal of None \<Rightarrow> False | Some m \<Rightarrow> m \<noteq> 0 \<and> currentPrice < m)
      then currentPrice
      else
        let discount =
          (if valueType deal = percentage
           then let discount = currentPrice * (sd_value deal / 100)
                in (case maxDiscount deal of
                      None \<Rightarrow> discount
                    | Some m \<Rightarrow> if m \<noteq> 0 then min discount m else discount)
           else sd_value deal)
        in max 0 (currentPrice - discount))"

definition calculateDealValue :: "real \<Rightarrow> StackDeal \<Rightarrow> real \<Rightarrow> real" where
  "calculateDealValue currentPrice deal basePrice =
     (let newPrice = applyDeal currentPrice deal basePrice in currentPrice - newPrice)"

text \<open>\<open>calculateBound\<close>: the loop over \<open>deals\<close> from \<open>startIndex\<close>, with
  \<open>bound\<close> and \<open>price\<close> (written \<open>bnd\<close>, \<open>prc\<close>) threaded through; \<open>break\<close>
  ends it. A list of deals is written \<open>ds\<close>.\<close>

fun calculateBound_loop :: "real \<Rightarrow> StackDeal list \<Rightarrow> real \<Rightarrow> real \<Rightarrow> real" where
  "calculateBound_loop currentPrice [] bnd prc = bnd"
| "calculateBound_loop currentPrice (deal # rest) bnd prc =
     (let potential = calculateDealValue prc deal currentPrice;
          bnd = bnd + potential;
          prc = prc - potential
      in if prc \<le> 0 then bnd else calculateBound_loop currentPrice rest bnd prc)"

definition calculateBound :: "real \<Rightarrow> StackDeal list \<Rightarrow> nat \<Rightarrow> real" where
  "calculateBound currentPrice ds startIndex =
     calculateBound_loop currentPrice (drop startIndex ds) 0 currentPrice"

definition canStackSameType :: "DealType \<Rightarrow> bool" where
  "canStackSameType t = (typeName t \<in> set [''cashback'', ''points''])"

fun canStackDeal_loop :: "StackDeal \<Rightarrow> StackDeal list \<Rightarrow> bool" where
  "canStackDeal_loop deal [] = True"
| "canStackDeal_loop deal (existing # rest) =
     (if \<not> stackable existing then False
      else if (case stacksWith existing of None \<Rightarrow> False
               | Some l \<Rightarrow> typeName (sd_type deal) \<notin> set l) then False
      else if (case stacksWith deal of None \<Rightarrow> False
               | Some l \<Rightarrow> typeName (sd_type existing) \<notin> set l) then False
      else if sd_type existing = sd_type deal \<and> \<not> canStackSameType (sd_type deal) then False
      else canStackDeal_loop deal rest)"

definition canStackDeal :: "StackDeal \<Rightarrow> StackDeal list \<Rightarrow> bool" where
  "canStackDeal deal existingDeals =
     (if \<not> stackable deal \<and> length existingDeals > 0 then False
      else canStackDeal_loop deal existingDeals)"

definition dealNameOf :: "StackDeal \<Rightarrow> DealName" where
  "dealNameOf deal =
     (case code deal of
        Some c \<Rightarrow> if c \<noteq> [] then CodeName c
                  else TypeValueName (sd_type deal) (sd_value deal) (valueType deal = percentage)
      | None \<Rightarrow> TypeValueName (sd_type deal) (sd_value deal) (valueType deal = percentage))"

fun generateBreakdown_loop ::
  "real \<Rightarrow> StackDeal list \<Rightarrow> real \<Rightarrow> StackBreakdown list \<Rightarrow> StackBreakdown list"
where
  "generateBreakdown_loop basePrice [] currentPrice acc = acc"
| "generateBreakdown_loop basePrice (deal # rest) currentPrice acc =
     (let newPrice = applyDeal currentPrice deal basePrice;
          savings = currentPrice - newPrice
      in generateBreakdown_loop basePrice rest newPrice
           (acc @ [\<lparr> bd_dealId = sd_id deal,
                      dealName = dealNameOf deal,
                      savings = savings,
                      priceAfter = newPrice,
                      applied = (savings > 0),
                      bd_reason = (if savings = 0
                        then Some ''Minimum purchase not met or no additional savings''
                        else None) \<rparr>]))"

definition generateBreakdown :: "real \<Rightarrow> StackDeal list \<Rightarrow> StackBreakdown list" where
  "generateBreakdown basePrice ds = generateBreakdown_loop basePrice ds basePrice []"

subsection \<open>Branch and bound\<close>

text \<open>
  The search keeps its open nodes on an array used as a stack: \<open>push\<close> adds at the end
  and \<open>pop\<close> takes from the end. The model's list has the end of the array at its head.
  \<open>bb_step\<close> is the body of the \<open>while\<close> loop for the node popped.
\<close>

record Node =
  index :: nat
  currentDeals :: "StackDeal list"
  currentPrice :: real
  bound :: real

definition bb_step ::
  "real \<Rightarrow> StackDeal list \<Rightarrow> real \<Rightarrow> StackResult \<Rightarrow> Node \<Rightarrow> Node list
     \<Rightarrow> StackResult \<times> Node list"
where
  "bb_step basePrice ds maxDeals' bestResult node stack =
     (if bound node \<le> totalSavings bestResult then (bestResult, stack)
      else
        let (bestResult, stack) =
          (if index node < length ds \<and> real (length (currentDeals node)) < maxDeals'
           then
             let deal = ds ! index node;
                 canStack = canStackDeal deal (currentDeals node)
             in if canStack
                then
                  let newPrice = applyDeal (currentPrice node) deal basePrice;
                      newDeals = currentDeals node @ [deal];
                      savings = basePrice - newPrice;
                      bestResult =
                        (if savings > totalSavings bestResult
                         then StackResult newDeals savings newPrice
                                (generateBreakdown basePrice newDeals) None None
                         else bestResult);
                      stack =
                        (if index node + 1 < length ds
                         then \<lparr> index = index node + 1,
                                currentDeals = newDeals,
                                currentPrice = newPrice,
                                bound = calculateBound newPrice ds (index node + 1) \<rparr> # stack
                         else stack)
                  in (bestResult, stack)
                else (bestResult, stack)
           else (bestResult, stack))
        in if index node + 1 < length ds
           then (bestResult,
                 \<lparr> index = index node + 1,
                   currentDeals = currentDeals node,
                   currentPrice = currentPrice node,
                   bound = bound node \<rparr> # stack)
           else (bestResult, stack))"

text \<open>
  The clock: \<open>clock n\<close> is what the \<open>n\<close>-th call of \<open>Date.now()\<close> returns, and the
  number of calls made so far is threaded through. The loop condition
  \<open>stack.length > 0 && Date.now() - startTime < timeLimit\<close> reads the clock only when the
  stack is not empty.
\<close>

type_synonym clock = "nat \<Rightarrow> int"

definition stack_weight :: "StackDeal list \<Rightarrow> Node list \<Rightarrow> nat" where
  "stack_weight ds stack = sum_list (map (\<lambda>node. 3 ^ (length ds - index node)) stack)"

lemma bb_step_weight:
  "stack_weight ds (snd (bb_step basePrice ds maxDeals' bestResult node stack))
     < stack_weight ds (node # stack)"
proof -
  have pos: "0 < (3::nat) ^ (length ds - index node)" by simp
  have half: "index node + 1 < length ds \<Longrightarrow>
      2 * (3::nat) ^ (length ds - (index node + 1)) < 3 ^ (length ds - index node)"
  proof -
    assume a: "index node + 1 < length ds"
    then have "length ds - index node = Suc (length ds - (index node + 1))" by simp
    then show ?thesis by simp
  qed
  show ?thesis
    using pos half
    by (auto simp: bb_step_def stack_weight_def Let_def split: if_splits prod.splits)
qed

function bb_loop ::
  "clock \<Rightarrow> real \<Rightarrow> StackDeal list \<Rightarrow> real \<Rightarrow> int \<Rightarrow> real
     \<Rightarrow> StackResult \<Rightarrow> Node list \<Rightarrow> nat \<Rightarrow> StackResult \<times> nat"
where
  "bb_loop clock basePrice ds maxDeals' startTime timeLimit' bestResult stack t =
     (case stack of
        [] \<Rightarrow> (bestResult, t)
      | node # rest \<Rightarrow>
          if real_of_int (clock t - startTime) < timeLimit'
          then (case bb_step basePrice ds maxDeals' bestResult node rest of
                  (bestResult', stack') \<Rightarrow>
                    bb_loop clock basePrice ds maxDeals' startTime timeLimit' bestResult' stack'
                      (t + 1))
          else (bestResult, t + 1))"
  by pat_completeness auto
termination
  apply (relation "measure (\<lambda>(clock, basePrice, ds, maxDeals', startTime, timeLimit',
            bestResult, stack, t). stack_weight ds stack)")
   apply simp
  subgoal premises p for clock basePrice ds maxDeals' startTime timeLimit' bestResult stack t
      node rest
    using bb_step_weight [of ds basePrice maxDeals' bestResult node rest] p
    by (simp add: in_measure) (metis snd_conv)
  done

declare bb_loop.simps [simp del]

text \<open>\<open>branchAndBound\<close>: the loop from the root node, then the last reading of the
  clock, which decides on the warning.\<close>

definition timeLimitWarning :: "string list" where
  "timeLimitWarning = [''Optimization time limit reached. Result may not be optimal.'']"

definition rootNode :: "real \<Rightarrow> StackDeal list \<Rightarrow> Node" where
  "rootNode basePrice ds =
     \<lparr> index = 0, currentDeals = [], currentPrice = basePrice,
       bound = calculateBound basePrice ds 0 \<rparr>"

definition branchAndBound ::
  "clock \<Rightarrow> real \<Rightarrow> StackDeal list \<Rightarrow> real \<Rightarrow> int \<Rightarrow> real \<Rightarrow> nat \<Rightarrow> StackResult \<times> nat"
where
  "branchAndBound clock basePrice ds maxDeals' startTime timeLimit' t =
     (case bb_loop clock basePrice ds maxDeals' startTime timeLimit'
             (StackResult [] 0 basePrice [] None None) [rootNode basePrice ds] t of
        (bestResult, t') \<Rightarrow>
          (if real_of_int (clock t' - startTime) \<ge> timeLimit'
           then set_warnings timeLimitWarning bestResult
           else bestResult,
           t' + 1))"

subsection \<open>Sorting, keys and constraints\<close>

text \<open>
  \<open>Array.prototype.sort\<close> with a comparison function is a stable sort: \<open>a\<close> stays
  before \<open>b\<close> unless the function is positive on them. For a comparison function that
  orders its arguments consistently, as the two used here do, the result does not depend on
  the algorithm; the model inserts from the right. Without a function, \<open>sort()\<close> orders
  strings by their characters.
\<close>

fun insert_by :: "('a \<Rightarrow> 'a \<Rightarrow> real) \<Rightarrow> 'a \<Rightarrow> 'a list \<Rightarrow> 'a list" where
  "insert_by cmp x [] = [x]"
| "insert_by cmp x (y # ys) = (if cmp x y > 0 then y # insert_by cmp x ys else x # y # ys)"

definition sort_by :: "('a \<Rightarrow> 'a \<Rightarrow> real) \<Rightarrow> 'a list \<Rightarrow> 'a list" where
  "sort_by cmp xs = foldr (insert_by cmp) xs []"

fun join :: "string \<Rightarrow> string list \<Rightarrow> string" where
  "join sep [] = []"
| "join sep [x] = x"
| "join sep (x # y # ys) = x @ sep @ join sep (y # ys)"

definition sortDeals :: "StackDeal list \<Rightarrow> real \<Rightarrow> StackDeal list" where
  "sortDeals ds basePrice =
     sort_by (\<lambda>a b.
        if priority a \<noteq> priority b then priority b - priority a
        else let aValue = calculateDealValue basePrice a basePrice;
                 bValue = calculateDealValue basePrice b basePrice
             in bValue - aValue) ds"

definition applyConstraints :: "StackDeal list \<Rightarrow> OptimizationConstraints \<Rightarrow> StackDeal list" where
  "applyConstraints ds constraints =
     (let filtered = ds;
          filtered = (case preferredTypes constraints of
                        Some l \<Rightarrow> if l \<noteq> [] then filter (\<lambda>d. sd_type d \<in> set l) filtered
                                  else filtered
                      | None \<Rightarrow> filtered);
          filtered = (case excludeTypes constraints of
                        Some l \<Rightarrow> if l \<noteq> [] then filter (\<lambda>d. sd_type d \<notin> set l) filtered
                                  else filtered
                      | None \<Rightarrow> filtered)
      in filtered)"

text \<open>
  The cache key is the string \<open>`${basePrice}-${dealIds}-${constraintKey}`\<close>. The model
  keeps its three parts: the price, the sorted ids joined by commas, and the constraints, of
  which \<open>JSON.stringify\<close> is the text.
\<close>

type_synonym CacheKey = "real \<times> string \<times> OptimizationConstraints"

definition getCacheKey :: "real \<Rightarrow> StackDeal list \<Rightarrow> OptimizationConstraints \<Rightarrow> CacheKey" where
  "getCacheKey basePrice ds constraints =
     (let dealIds = join '','' (sort (map sd_id ds));
          constraintKey = constraints
      in (basePrice, dealIds, constraintKey))"

definition getDealComboKey :: "StackDeal list \<Rightarrow> string" where
  "getDealComboKey ds = join ''-'' (sort (map sd_id ds))"

subsection \<open>Alternatives and the entry point\<close>

text \<open>\<open>findAlternatives_loop\<close> runs over the values of \<open>i\<close> still to come;
  \<open>usedCombinations\<close> is the set of keys seen, kept as a list.\<close>

fun findAlternatives_loop ::
  "clock \<Rightarrow> real \<Rightarrow> StackDeal list \<Rightarrow> nat \<Rightarrow> nat list \<Rightarrow> StackResult list \<Rightarrow> string list
     \<Rightarrow> nat \<Rightarrow> StackResult list \<times> nat"
where
  "findAlternatives_loop clock basePrice ds maxAlternatives [] alternatives usedCombinations t =
     (alternatives, t)"
| "findAlternatives_loop clock basePrice ds maxAlternatives (i # rest) alternatives
     usedCombinations t =
     (let reorderedDeals = drop i ds @ take i ds
      in case branchAndBound clock basePrice reorderedDeals 5 (clock t) 500 (t + 1) of
           (altResult, t') \<Rightarrow>
             let comboKey = getDealComboKey (deals altResult)
             in if comboKey \<notin> set usedCombinations \<and> totalSavings altResult > 0
                then
                  let alternatives = alternatives @ [altResult];
                      usedCombinations = usedCombinations @ [comboKey]
                  in if length alternatives \<ge> maxAlternatives then (alternatives, t')
                     else findAlternatives_loop clock basePrice ds maxAlternatives rest
                            alternatives usedCombinations t'
                else findAlternatives_loop clock basePrice ds maxAlternatives rest
                       alternatives usedCombinations t')"

definition findAlternatives ::
  "clock \<Rightarrow> real \<Rightarrow> StackDeal list \<Rightarrow> StackResult \<Rightarrow> nat \<Rightarrow> nat \<Rightarrow> StackResult list \<times> nat"
where
  "findAlternatives clock basePrice ds bestResult maxAlternatives t =
     (case findAlternatives_loop clock basePrice ds maxAlternatives
             [0 ..< min (length ds) 5] [] [getDealComboKey (deals bestResult)] t of
        (alternatives, t') \<Rightarrow>
          (sort_by (\<lambda>a b. totalSavings b - totalSavings a) alternatives, t'))"

text \<open>
  The optimizer's state is its \<open>memoCache\<close>. \<open>optimize\<close> sorts the caller's array in
  place, so the model returns the array as the call leaves it next to the result.
  \<open>constraints.timeLimit || 1000\<close> and \<open>constraints.maxDeals || 5\<close> take the default
  for an absent field and for 0.
\<close>

record StackOptimizer =
  memoCache :: "CacheKey \<rightharpoonup> StackResult"

definition new_StackOptimizer :: StackOptimizer where
  "new_StackOptimizer = \<lparr> memoCache = Map.empty \<rparr>"

definition optimize ::
  "clock \<Rightarrow> real \<Rightarrow> StackDeal list \<Rightarrow> OptimizationConstraints \<Rightarrow> StackOptimizer \<times> nat
     \<Rightarrow> (StackResult \<times> StackDeal list) \<times> (StackOptimizer \<times> nat)"
where
  "optimize clock basePrice availableDeals constraints st =
     (case st of (this, t) \<Rightarrow>
        let cacheKey = getCacheKey basePrice availableDeals constraints
        in case memoCache this cacheKey of
             Some cached \<Rightarrow> ((cached, availableDeals), (this, t))
           | None \<Rightarrow>
               let startTime = clock t;
                   t = t + 1;
                   timeLimit' = (case timeLimit constraints of
                                   Some l \<Rightarrow> if l \<noteq> 0 then l else 1000
                                 | None \<Rightarrow> 1000);
                   sortedDeals = sortDeals availableDeals basePrice;
                   filteredDeals = applyConstraints sortedDeals constraints;
                   maxDeals' = (case maxDeals constraints of
                                  Some m \<Rightarrow> if m \<noteq> 0 then m else 5
                                | None \<Rightarrow> 5)
               in case branchAndBound clock basePrice filteredDeals maxDeals' startTime
                         timeLimit' t of
                    (result, t) \<Rightarrow>
                      (case (if totalSavings result > 0
                             then (case findAlternatives clock basePrice filteredDeals result 3 t of
                                     (alts, t) \<Rightarrow> (set_alternativeStacks alts result, t))
                             else (result, t)) of
                         (result, t) \<Rightarrow>
                           ((result, sortedDeals),
                            (this\<lparr> memoCache := (memoCache this)(cacheKey \<mapsto> result) \<rparr>, t))))"

section \<open>Definitions used by the statements\<close>

text \<open>What one seller id contributes to the result of \<open>detectCounterfeitProducts\<close>,
  in the words of the description: nothing for a seller the cache does not hold; one
  verdict for a seller with a rating below 3.5 or fewer than 50 reviews.\<close>

definition sellerVerdicts :: "(string \<rightharpoonup> Seller) \<Rightarrow> string \<Rightarrow> FraudCheckResult list" where
  "sellerVerdicts cache sid =
     (case cache sid of
        None \<Rightarrow> []
      | Some seller \<Rightarrow>
          if rating seller < 3.5 \<or> reviewCount seller < 50
          then [\<lparr> isFraudulent = True, fraudType = Some ''counterfeit_product'',
                  confidence = (if rating seller < 2.5 then Fin 0.9 else Fin 0.7),
                  reason = Some (LowRatingOrFewReviews (rating seller) (reviewCount seller)) \<rparr>]
          else [])"


text \<open>The threshold of a category as the description gives it: the four named categories,
  and 0.85 for any other.\<close>

definition categoryThreshold :: "string \<Rightarrow> real" where
  "categoryThreshold c =
     (if c = ''electronics'' then 0.7
      else if c = ''fashion'' then 0.9
      else if c = ''home'' then 0.8
      else if c = ''food'' then 0.6
      else 0.85)"

text \<open>Two deals at 99 percent off: one in a category of the table, one whose category is the
  name of a property that every object inherits.\<close>

definition bargain :: Deal where
  "bargain =
     \<lparr> deal_id = ''d1'', title = ''Phone'', originalPrice = 100, discountedPrice = 1,
       category = ''electronics'', sellerId = ''seller1'', url = ''https://shop.example/p'',
       timestamp = 0 \<rparr>"

definition constructorDeal :: Deal where
  "constructorDeal =
     \<lparr> deal_id = ''d2'', title = ''Phone'', originalPrice = 100, discountedPrice = 1,
       category = ''constructor'', sellerId = ''seller1'', url = ''https://shop.example/p'',
       timestamp = 0 \<rparr>"

text \<open>Calls of the engine operations that the description lists, and the state a call
  leaves behind. A call of \<open>detectSuspiciousUserBehavior\<close> carries the reading of the
  clock it makes.\<close>

datatype EngineCall =
    DetectFraud Deal "string option"
  | DetectFakeDeals "Deal list"
  | DetectSuspiciousUserBehavior int string string
  | GetTopAnomalies int

fun call :: "EngineCall \<Rightarrow> Engine \<Rightarrow> Engine" where
  "call (DetectFraud deal sid) s = snd (detectFraud deal sid s)"
| "call (DetectFakeDeals ds) s = snd (detectFakeDeals ds s)"
| "call (DetectSuspiciousUserBehavior now userId action) s =
     snd (detectSuspiciousUserBehavior now userId action s)"
| "call (GetTopAnomalies n) s = snd (getTopAnomalies n s)"

text \<open>The part of the engine's state that \<open>detectFraud\<close> reads.\<close>

definition caches ::
  "Engine \<Rightarrow> TrieNode \<times> (string \<rightharpoonup> Seller) \<times> (string \<rightharpoonup> PriceHistory)"
where
  "caches s = (phishingTrie s, sellerReputationCache s, priceHistoryCache s)"

text \<open>Two stackable cashback offers of fixed value, and the empty constraints.\<close>

definition cashbackDeal :: "string \<Rightarrow> real \<Rightarrow> StackDeal" where
  "cashbackDeal i v =
     \<lparr> sd_id = i, sd_type = cashback, code = None, sd_value = v, valueType = fixed,
       minPurchase = None, maxDiscount = None, sd_category = None, excludes = None,
       stackable = True, stacksWith = None, priority = 1, expiresAt = None \<rparr>"

definition twoCashbacks :: "StackDeal list" where
  "twoCashbacks = [cashbackDeal ''A'' 10, cashbackDeal ''B'' 5]"

definition noConstraints :: OptimizationConstraints where
  "noConstraints =
     \<lparr> maxDeals = None, preferredTypes = None, excludeTypes = None, minSavings = None,
       timeLimit = None \<rparr>"

text \<open>Calls of \<open>optimize\<close>, each under a clock of its own, and the state a call leaves
  behind.\<close>

datatype OptimizeCall = OptimizeCall clock real "StackDeal list" OptimizationConstraints

fun optimize_call :: "OptimizeCall \<Rightarrow> StackOptimizer \<times> nat \<Rightarrow> StackOptimizer \<times> nat" where
  "optimize_call (OptimizeCall clock basePrice ds constraints) st =
     snd (optimize clock basePrice ds constraints st)"

text \<open>The states of the search on \<open>twoCashbacks\<close> at the price 100: the best result once
  the first offer is taken, and the two nodes then open.\<close>

definition bestA :: StackResult where
  "bestA =
     StackResult [cashbackDeal ''A'' 10] 10 90 (generateBreakdown 100 [cashbackDeal ''A'' 10])
       None None"

definition nodeA :: Node where
  "nodeA =
     \<lparr> index = 1, currentDeals = [cashbackDeal ''A'' 10], currentPrice = 90, bound = 5 \<rparr>"

definition nodeSkipA :: Node where
  "nodeSkipA = \<lparr> index = 1, currentDeals = [], currentPrice = 100, bound = 15 \<rparr>"

text \<open>What the description asks of a result for the base price \<open>basePrice\<close>.\<close>

definition result_ok :: "real \<Rightarrow> StackResult \<Rightarrow> bool" where
  "result_ok basePrice r \<longleftrightarrow>
     0 \<le> finalPrice r \<and> finalPrice r \<le> basePrice \<and> totalSavings r = basePrice - finalPrice r"

text \<open>The invariant of the memo cache: an entry stored under a key with a base price that is
  not negative is a result for that price.\<close>

definition memo_ok :: "(CacheKey \<rightharpoonup> StackResult) \<Rightarrow> bool" where
  "memo_ok memo \<longleftrightarrow>
     (\<forall>basePrice ids constraints r.
        memo (basePrice, ids, constraints) = Some r \<longrightarrow> 0 \<le> basePrice \<longrightarrow> result_ok basePrice r)"

text \<open>The states of the optimizer: \<open>memoCache\<close> is private and only \<open>optimize\<close>
  writes it, so a state is a new optimizer or what a call of \<open>optimize\<close> leaves, under
  any clock.\<close>

inductive reachable_optimizer :: "StackOptimizer \<times> nat \<Rightarrow> bool" where
  new: "reachable_optimizer (new_StackOptimizer, t)"
| optimize: "reachable_optimizer st \<Longrightarrow>
     reachable_optimizer (snd (optimize clock basePrice ds constraints st))"


text \<open>
  The heap as a tree in an array: the parent of the index \<open>i\<close>, and when the comparison
  function puts \<open>a\<close> above \<open>b\<close>. A key function into a linear order describes the
  comparison function on a set of elements when \<open>a\<close> goes above \<open>b\<close> exactly for
  \<open>key a < key b\<close>. \<open>heap_inv\<close> is the heap property: no element has a smaller key
  than its parent. \<open>up_inv\<close> and \<open>down_inv\<close> are the property with one index left out,
  as \<open>heapifyUp\<close> and \<open>heapifyDown\<close> meet it; \<open>smallest_of\<close> is the index that
  \<open>heapifyDown\<close> picks.
\<close>

definition parent :: "nat \<Rightarrow> nat" where
  "parent i = (i - 1) div 2"

definition goes_above :: "'a compareFn \<Rightarrow> 'a \<Rightarrow> 'a \<Rightarrow> bool" where
  "goes_above cmp a b = js_lt (cmp a b) (Fin 0)"

definition keyed :: "'a compareFn \<Rightarrow> ('a \<Rightarrow> 'k::linorder) \<Rightarrow> 'a set \<Rightarrow> bool" where
  "keyed cmp key S \<longleftrightarrow> (\<forall>a\<in>S. \<forall>b\<in>S. goes_above cmp a b \<longleftrightarrow> key a < key b)"

definition heap_inv :: "('a \<Rightarrow> 'k::linorder) \<Rightarrow> 'a list \<Rightarrow> bool" where
  "heap_inv key h \<longleftrightarrow> (\<forall>i<length h. 0 < i \<longrightarrow> key (h ! parent i) \<le> key (h ! i))"

definition up_inv :: "('a \<Rightarrow> 'k::linorder) \<Rightarrow> 'a list \<Rightarrow> nat \<Rightarrow> bool" where
  "up_inv key h k \<longleftrightarrow>
     (\<forall>i<length h. 0 < i \<longrightarrow>
        (i \<noteq> k \<longrightarrow> key (h ! parent i) \<le> key (h ! i)) \<and>
        (parent i = k \<longrightarrow> 0 < k \<longrightarrow> key (h ! parent k) \<le> key (h ! i)))"

definition down_inv :: "('a \<Rightarrow> 'k::linorder) \<Rightarrow> 'a list \<Rightarrow> nat \<Rightarrow> bool" where
  "down_inv key h k \<longleftrightarrow>
     (\<forall>i<length h. 0 < i \<longrightarrow>
        (parent i \<noteq> k \<longrightarrow> key (h ! parent i) \<le> key (h ! i)) \<and>
        (parent i = k \<longrightarrow> 0 < k \<longrightarrow> key (h ! parent k) \<le> key (h ! i)))"

definition smallest_of :: "'a compareFn \<Rightarrow> 'a list \<Rightarrow> nat \<Rightarrow> nat" where
  "smallest_of cmp h k =
     (let s = (if 2 * k + 1 < length h \<and> goes_above cmp (h ! (2 * k + 1)) (h ! k)
               then 2 * k + 1 else k)
      in if 2 * k + 2 < length h \<and> goes_above cmp (h ! (2 * k + 2)) (h ! s)
         then 2 * k + 2 else s)"

definition anomaly_key :: "Anomaly \<Rightarrow> nat \<times> real" where
  "anomaly_key a =
     (case anomalyScore a of
        PosInf \<Rightarrow> (0, 0)
      | Fin r \<Rightarrow> (1, - r)
      | NegInf \<Rightarrow> (2, 0)
      | NaN \<Rightarrow> (3, 0))"

definition numeric :: "Anomaly set" where
  "numeric = {a. anomalyScore a \<noteq> NaN}"

text \<open>
  The anomaly heap orders by \<open>b.anomalyScore - a.anomalyScore\<close>: the larger score goes
  above. On scores that are numbers (not NaN) the order is that of the key below, with
  positive infinity first. \<open>heap_ok\<close> is what every state of the engine keeps.
\<close>

definition heap_ok :: "Anomaly list \<Rightarrow> bool" where
  "heap_ok h \<longleftrightarrow> set h \<subseteq> numeric \<and> heap_inv anomaly_key h"

text \<open>The states of the engine: a new engine, and what a public method leaves. The
  methods that only read are left out.\<close>

inductive reachable :: "Engine \<Rightarrow> bool" where
  new: "reachable (new_Engine now)"
| detectFraud: "reachable s \<Longrightarrow> reachable (snd (detectFraud deal sid s))"
| detectFakeDeals: "reachable s \<Longrightarrow> reachable (snd (detectFakeDeals ds s))"
| detectSuspiciousUserBehavior:
    "reachable s \<Longrightarrow> reachable (snd (detectSuspiciousUserBehavior now userId action s))"
| getTopAnomalies: "reachable s \<Longrightarrow> reachable (snd (getTopAnomalies n s))"
| updateSellerReputation: "reachable s \<Longrightarrow> reachable (updateSellerReputation seller s)"
| addPhishingPattern: "reachable s \<Longrightarrow> reachable (addPhishingPattern pattern s)"
| updatePriceHistory: "reachable s \<Longrightarrow> reachable (updatePriceHistory now1 now2 pid p s)"
| clearUserActivityCache: "reachable s \<Longrightarrow> reachable (clearUserActivityCache s)"

text \<open>Three deals on electronics, at 99, 80 and 90 percent off.\<close>

definition threeBargains :: "Deal list" where
  "threeBargains =
     [bargain,
      bargain\<lparr> deal_id := ''d3'', discountedPrice := 20 \<rparr>,
      bargain\<lparr> deal_id := ''d4'', discountedPrice := 10 \<rparr>]"

section \<open>Seller reputation\<close>

lemma detectCounterfeitProducts_loop_acc:
  "detectCounterfeitProducts_loop cache sellerIds results =
     results @ detectCounterfeitProducts_loop cache sellerIds []"
proof (induction sellerIds arbitrary: results)
  case Nil
  show ?case by simp
next
  case (Cons sid sellerIds)
  show ?case
    using Cons.IH [of "results @ [counterfeitVerdict (the (cache sid))]"]
          Cons.IH [of "[counterfeitVerdict (the (cache sid))]"] Cons.IH [of results]
    by (auto split: option.splits)
qed

text \<open>
  C8. \<open>detectCounterfeitProducts\<close> decides each seller id on its own, by rating and review
  count alone: an id absent from the reputation cache gives no verdict; an id in the cache gives
  one \<open>counterfeit_product\<close> verdict exactly when the rating is below 3.5 or the review count
  below 50, with confidence 0.9 for a rating below 2.5 and 0.7 otherwise. The result is these
  verdicts in the order of the ids.
\<close>

theorem detectCounterfeitProducts_by_seller:
  "detectCounterfeitProducts sellerIds s =
     concat (map (sellerVerdicts (sellerReputationCache s)) sellerIds)"
  unfolding detectCounterfeitProducts_def
proof (induction sellerIds)
  case Nil
  show ?case by simp
next
  case (Cons sid sellerIds)
  show ?case
    using Cons.IH
      detectCounterfeitProducts_loop_acc [of "sellerReputationCache s" sellerIds
        "[counterfeitVerdict (the (sellerReputationCache s sid))]"]
    by (auto simp: sellerVerdicts_def counterfeitVerdict_def split: option.splits)
qed

theorem detectCounterfeitProducts_by_seller_witness:
  "detectCounterfeitProducts [''seller3'', ''nobody'', ''seller1'', ''seller4''] (new_Engine 0) =
     [\<lparr> isFraudulent = True, fraudType = Some ''counterfeit_product'', confidence = Fin 0.9,
        reason = Some (LowRatingOrFewReviews 2.1 12) \<rparr>,
      \<lparr> isFraudulent = True, fraudType = Some ''counterfeit_product'', confidence = Fin 0.7,
        reason = Some (LowRatingOrFewReviews 3.2 25) \<rparr>]"
  using detectCounterfeitProducts_by_seller
    [of "[''seller3'', ''nobody'', ''seller1'', ''seller4'']" "new_Engine 0"]
  by (simp add: sellerVerdicts_def new_Engine_def initialSellers_def)

section \<open>Price manipulation\<close>




section \<open>Fake deals\<close>

lemma thresholdPercentageOf_own:
  "category d \<notin> set Object_prototype_keys \<Longrightarrow>
     thresholdPercentageOf d = Fin (100 * categoryThreshold (category d))"
  by (simp add: thresholdPercentageOf_def categoryThresholds_def categoryThreshold_def
      Object_prototype_keys_def)

lemma discountPercentageOf_pos:
  "originalPrice d > 0 \<Longrightarrow>
     discountPercentageOf d = Fin ((originalPrice d - discountedPrice d) / originalPrice d * 100)"
  by (simp add: discountPercentageOf_def)

text \<open>For a category that is not the name of an inherited property, \<open>detectFakeDeals\<close>
  decides a deal with a positive original price by the threshold of its category.\<close>

lemma detectFakeDeals_by_threshold:
  assumes "originalPrice d > 0" and "category d \<notin> set Object_prototype_keys"
  shows "fst (detectFakeDeals [d] s) =
     (let discountPercentage = (originalPrice d - discountedPrice d) / originalPrice d * 100;
          thresholdPercentage = 100 * categoryThreshold (category d)
      in if discountPercentage > thresholdPercentage
         then [\<lparr> isFraudulent = True, fraudType = Some ''fake_deal'',
                 confidence = Fin (min ((discountPercentage - thresholdPercentage) / 20) 0.95),
                 reason = Some (DiscountExceedsThreshold (Fin discountPercentage)
                                  (Fin thresholdPercentage)) \<rparr>]
         else [])"
proof -
  define p where "p = (originalPrice d - discountedPrice d) / originalPrice d * 100"
  define t where "t = 100 * categoryThreshold (category d)"
  have dp: "discountPercentageOf d = Fin p"
    using assms(1) by (simp add: discountPercentageOf_pos p_def)
  have tp: "thresholdPercentageOf d = Fin t"
    using assms(2) by (simp add: thresholdPercentageOf_own t_def)
  have conf: "Math_min (js_div (js_sub (Fin p) (Fin t)) (Fin 20)) (Fin 0.95)
      = Fin (min ((p - t) / 20) 0.95)"
    by (simp add: min_def)
  have "fst (detectFakeDeals [d] s) =
      (if p > t then [\<lparr> isFraudulent = True, fraudType = Some ''fake_deal'',
                 confidence = Fin (min ((p - t) / 20) 0.95),
                 reason = Some (DiscountExceedsThreshold (Fin p) (Fin t)) \<rparr>] else [])"
    by (simp only: detectFakeDeals_def detectFakeDeals_loop.simps dp tp Let_def js_gt_def
        fakeDealVerdict_def conf js_lt.simps split: prod.splits) simp
  then show ?thesis
    by (simp only: Let_def p_def t_def)
qed

text \<open>
  C7. The deal \<open>constructorDeal\<close> has a positive original price and a discount of 99
  percent, above 100 times the threshold 0.85 of a category outside the table; its category
  is \<open>constructor\<close>. \<open>detectFakeDeals\<close> returns no verdict for it, in any state of the
  engine: the lookup finds the inherited property, whose numeric value is NaN, and the
  comparison with NaN is false.
\<close>

theorem detectFakeDeals_inherited_category:
  "originalPrice constructorDeal > 0 \<and>
   (originalPrice constructorDeal - discountedPrice constructorDeal)
      / originalPrice constructorDeal * 100
     > 100 * categoryThreshold (category constructorDeal) \<and>
   fst (detectFakeDeals [constructorDeal] s) = []"
  by (simp add: constructorDeal_def categoryThreshold_def detectFakeDeals_def
      discountPercentageOf_def thresholdPercentageOf_def categoryThresholds_def
      Object_prototype_keys_def js_gt_def)

section \<open>State carried between calls\<close>

lemma anomalyHeap_new_Engine: "anomalyHeap (new_Engine now) = []"
  by (simp add: new_Engine_def)

lemma anomalyHeap_detectFakeDeals:
  "anomalyHeap (snd (detectFakeDeals ds s)) = snd (detectFakeDeals_loop ds (anomalyHeap s) [])"
  by (simp add: detectFakeDeals_def split: prod.splits)

lemma userActivityCache_new_Engine: "userActivityCache (new_Engine now) = Map.empty"
  by (simp add: new_Engine_def)

lemma userActivityCache_detectSuspiciousUserBehavior:
  "userActivityCache (snd (detectSuspiciousUserBehavior 0 u a s)) u =
     Some ((case userActivityCache s u of
              None \<Rightarrow> []
            | Some ts \<Rightarrow> filter (\<lambda>ts. 0 - ts < 60000) ts) @ [0])"
  by (simp add: detectSuspiciousUserBehavior_def Let_def split: option.splits)

lemma userActivityCache_ten_calls:
  "userActivityCache
     (fold call (replicate 10 (DetectSuspiciousUserBehavior 0 ''u'' ''click'')) (new_Engine 0))
     ''u'' = Some (replicate 10 0)"
  by (simp add: eval_nat_numeral userActivityCache_detectSuspiciousUserBehavior
      userActivityCache_new_Engine)

text \<open>
  C3, as stated, fails, for three of the operations it lists. \<open>getTopAnomalies 1\<close> on a
  new engine returns nothing, and after a call of \<open>detectFakeDeals\<close> on a deal above its
  threshold it returns that deal's anomaly. \<open>detectSuspiciousUserBehavior\<close> finds nothing
  on a new engine, and suspicious behaviour after ten calls for the same user at the same
  time. \<open>optimize\<close> on a new optimizer saves 50 with an offer of 50, and after a call with
  an offer of 10 under the same id it returns the savings 10 of that call.
\<close>

theorem engine_results_depend_on_earlier_calls:
  "fst (getTopAnomalies 1 (new_Engine 0)) = [] \<and>
   fst (getTopAnomalies 1 (call (DetectFakeDeals [bargain]) (new_Engine 0))) =
     [\<lparr> dealId = ''d1'', anomalyScore = Fin 29 \<rparr>] \<and>
   fst (detectSuspiciousUserBehavior 0 ''u'' ''click'' (new_Engine 0)) =
     \<lparr> isFraudulent = False, fraudType = None, confidence = Fin 0, reason = None \<rparr> \<and>
   fst (detectSuspiciousUserBehavior 0 ''u'' ''click''
          (fold call (replicate 10 (DetectSuspiciousUserBehavior 0 ''u'' ''click''))
             (new_Engine 0))) =
     \<lparr> isFraudulent = True, fraudType = Some ''suspicious_behavior'',
       confidence = Fin (11 / 15), reason = Some (RapidActions 11) \<rparr> \<and>
   totalSavings (fst (fst (optimize (\<lambda>n. 0) 100 [cashbackDeal ''A'' 50] noConstraints
        (new_StackOptimizer, 0)))) = 50 \<and>
   totalSavings (fst (fst (optimize (\<lambda>n. 0) 100 [cashbackDeal ''A'' 50] noConstraints
        (optimize_call (OptimizeCall (\<lambda>n. 0) 100 [cashbackDeal ''A'' 10] noConstraints)
           (new_StackOptimizer, 0))))) = 10"
proof -
  have l0: "getTopAnomalies_loop 1 0 [] [] = ([], [])"
    by code_simp
  have h1: "snd (detectFakeDeals_loop [bargain] [] [])
      = [\<lparr> dealId = ''d1'', anomalyScore = Fin 29 \<rparr>]"
    by code_simp
  have l1: "getTopAnomalies_loop 1 0 [\<lparr> dealId = ''d1'', anomalyScore = Fin 29 \<rparr>] []
      = ([\<lparr> dealId = ''d1'', anomalyScore = Fin 29 \<rparr>], [])"
    by code_simp
  have a1: "anomalyHeap (snd (detectFakeDeals [bargain] (new_Engine 0)))
      = [\<lparr> dealId = ''d1'', anomalyScore = Fin 29 \<rparr>]"
    by (simp only: anomalyHeap_detectFakeDeals anomalyHeap_new_Engine h1)
  have top: "fst (getTopAnomalies 1 (new_Engine 0)) = [] \<and>
      fst (getTopAnomalies 1 (call (DetectFakeDeals [bargain]) (new_Engine 0))) =
        [\<lparr> dealId = ''d1'', anomalyScore = Fin 29 \<rparr>]"
    by (simp add: getTopAnomalies_def anomalyHeap_new_Engine a1 l0 l1)
  have s0: "fst (detectSuspiciousUserBehavior 0 ''u'' ''click'' (new_Engine 0)) =
      \<lparr> isFraudulent = False, fraudType = None, confidence = Fin 0, reason = None \<rparr>"
    by (simp add: detectSuspiciousUserBehavior_def userActivityCache_new_Engine Let_def
        notFraudulent_def)
  have s11: "fst (detectSuspiciousUserBehavior 0 ''u'' ''click''
        (fold call (replicate 10 (DetectSuspiciousUserBehavior 0 ''u'' ''click''))
           (new_Engine 0))) =
      \<lparr> isFraudulent = True, fraudType = Some ''suspicious_behavior'',
        confidence = Fin (11 / 15), reason = Some (RapidActions 11) \<rparr>"
    unfolding detectSuspiciousUserBehavior_def userActivityCache_ten_calls
    by (simp add: Let_def eval_nat_numeral)
  have opt: "totalSavings (fst (fst (optimize (\<lambda>n. 0) 100 [cashbackDeal ''A'' 50] noConstraints
        (new_StackOptimizer, 0)))) = 50 \<and>
      totalSavings (fst (fst (optimize (\<lambda>n. 0) 100 [cashbackDeal ''A'' 50] noConstraints
        (optimize_call (OptimizeCall (\<lambda>n. 0) 100 [cashbackDeal ''A'' 10] noConstraints)
           (new_StackOptimizer, 0))))) = 10"
    by code_simp
  show ?thesis
    using top s0 s11 opt by (simp only: simp_thms)
qed

lemma detectFakeDeals_loop_results:
  "fst (detectFakeDeals_loop ds h rs) = fst (detectFakeDeals_loop ds h' rs)"
  by (induction ds arbitrary: h h' rs) (auto simp: Let_def)

lemma detectFakeDeals_frame:
  "phishingTrie (snd (detectFakeDeals ds s)) = phishingTrie s \<and>
   sellerReputationCache (snd (detectFakeDeals ds s)) = sellerReputationCache s \<and>
   priceHistoryCache (snd (detectFakeDeals ds s)) = priceHistoryCache s \<and>
   userActivityCache (snd (detectFakeDeals ds s)) = userActivityCache s"
  by (simp add: detectFakeDeals_def split: prod.splits)

lemma detectFraud_state: "snd (detectFraud d sid s) = snd (detectFakeDeals [d] s)"
  by (simp add: detectFraud_def Let_def split: prod.splits)

lemma call_caches: "caches (call c s) = caches s"
  by (cases c)
     (auto simp: caches_def detectFraud_state detectFakeDeals_frame
        detectSuspiciousUserBehavior_def getTopAnomalies_def Let_def split: prod.splits)

lemma fold_call_caches: "caches (fold call cs s) = caches s"
  by (induction cs arbitrary: s) (auto simp: call_caches)

lemma detectFakeDeals_results_any: "fst (detectFakeDeals ds s) = fst (detectFakeDeals ds s')"
  using detectFakeDeals_loop_results [of ds "anomalyHeap s" "[]" "anomalyHeap s'"]
  by (auto simp: detectFakeDeals_def split: prod.splits)

lemma detectFraud_caches:
  assumes "caches s = caches s'"
  shows "fst (detectFraud d sid s) = fst (detectFraud d sid s')"
proof -
  obtain r s1 where a: "detectFakeDeals [d] s = (r, s1)"
    by (cases "detectFakeDeals [d] s")
  obtain r' s1' where b: "detectFakeDeals [d] s' = (r', s1')"
    by (cases "detectFakeDeals [d] s'")
  have rr: "r = r'"
    using detectFakeDeals_results_any [of "[d]" s s'] a b by simp
  have c: "caches s1 = caches s1'"
    using detectFakeDeals_frame [of "[d]" s] detectFakeDeals_frame [of "[d]" s'] a b assms
    by (simp add: caches_def)
  have 1: "\<And>ids. detectCounterfeitProducts ids s1 = detectCounterfeitProducts ids s1'"
    using c by (simp add: caches_def detectCounterfeitProducts_def)
  have 2: "\<And>urls. detectPhishingLinks urls s1 = detectPhishingLinks urls s1'"
    using c by (simp add: caches_def detectPhishingLinks_def)
  have 3: "\<And>p c. detectPriceManipulation p c s1 = detectPriceManipulation p c s1'"
    using c by (simp add: caches_def detectPriceManipulation_def)
  show ?thesis
    by (simp add: detectFraud_def a b rr 1 2 3 Let_def cong: option.case_cong if_cong)
qed

text \<open>
  C3, amended. The verdicts of \<open>detectFakeDeals\<close> and of \<open>detectFraud\<close> are the same
  whatever calls of \<open>detectFraud\<close>, \<open>detectFakeDeals\<close>, \<open>detectSuspiciousUserBehavior\<close>
  and \<open>getTopAnomalies\<close> were made before.
\<close>

theorem verdicts_independent_of_earlier_calls:
  "fst (detectFakeDeals ds (fold call calls s)) = fst (detectFakeDeals ds s) \<and>
   fst (detectFraud d sid (fold call calls s)) = fst (detectFraud d sid s)"
  using detectFakeDeals_results_any [of ds "fold call calls s" s]
    detectFraud_caches [OF fold_call_caches [of calls s], of d sid]
  by simp

theorem verdicts_independent_of_earlier_calls_witness:
  "fst (detectFakeDeals [bargain]
          (fold call [DetectFakeDeals [bargain], GetTopAnomalies 1,
                      DetectSuspiciousUserBehavior 5 ''u'' ''click''] (new_Engine 0)))
     = fst (detectFakeDeals [bargain] (new_Engine 0)) \<and>
   fst (detectFraud bargain (Some ''seller3'')
          (fold call [DetectFakeDeals [bargain], GetTopAnomalies 1,
                      DetectSuspiciousUserBehavior 5 ''u'' ''click''] (new_Engine 0)))
     = fst (detectFraud bargain (Some ''seller3'') (new_Engine 0))"
  using verdicts_independent_of_earlier_calls
    [of "[bargain]" "[DetectFakeDeals [bargain], GetTopAnomalies 1,
                      DetectSuspiciousUserBehavior 5 ''u'' ''click'']" "new_Engine 0"
        bargain "Some ''seller3''"]
  by simp

section \<open>The search of the optimizer\<close>

text \<open>
  C1. At the price 100, with the two stackable cashback offers of 10 and of 5 and no
  constraints, under a clock that never reaches the time limit, \<open>optimize\<close> returns the
  first offer alone, with savings 10 and no warning. The two offers stack, and together
  they save 15.
\<close>

theorem optimize_misses_best_stack:
  "(let r = fst (fst (optimize (\<lambda>n. 0) 100 twoCashbacks noConstraints (new_StackOptimizer, 0)))
    in deals r = [cashbackDeal ''A'' 10] \<and> totalSavings r = 10 \<and> finalPrice r = 90 \<and>
       warnings r = None) \<and>
   canStackDeal (cashbackDeal ''A'' 10) [] \<and>
   canStackDeal (cashbackDeal ''B'' 5) [cashbackDeal ''A'' 10] \<and>
   100 - applyDeal (applyDeal 100 (cashbackDeal ''A'' 10) 100) (cashbackDeal ''B'' 5) 100 = 15"
  by code_simp

text \<open>
  C2. The same search, step by step. The root node leaves the best result \<open>bestA\<close>
  (savings 10) and the open nodes \<open>nodeSkipA\<close> and \<open>nodeA\<close>; \<open>nodeSkipA\<close> changes
  nothing; \<open>nodeA\<close>, whose bound 5 is not greater than 10, is discarded. Yet the deal at
  the index of \<open>nodeA\<close> stacks on its deals, within the limit of 5, and brings the savings
  from the base price to 15.
\<close>

theorem branchAndBound_prunes_improving_node:
  "bb_step 100 twoCashbacks 5 (StackResult [] 0 100 [] None None) (rootNode 100 twoCashbacks) []
     = (bestA, [nodeSkipA, nodeA]) \<and>
   bb_step 100 twoCashbacks 5 bestA nodeSkipA [nodeA] = (bestA, [nodeA]) \<and>
   bound nodeA \<le> totalSavings bestA \<and>
   bb_step 100 twoCashbacks 5 bestA nodeA [] = (bestA, []) \<and>
   fst (branchAndBound (\<lambda>n. 0) 100 twoCashbacks 5 0 1000 0) = bestA \<and>
   index nodeA < length twoCashbacks \<and>
   real (length (currentDeals nodeA)) < 5 \<and>
   canStackDeal (twoCashbacks ! index nodeA) (currentDeals nodeA) \<and>
   100 - applyDeal (currentPrice nodeA) (twoCashbacks ! index nodeA) 100 = 15 \<and>
   totalSavings bestA = 10"
  by code_simp

section \<open>Memoization\<close>











section \<open>Bounds on the result of the optimizer\<close>

lemma applyDeal_nonneg: "0 \<le> p \<Longrightarrow> 0 \<le> applyDeal p d b"
  by (simp add: applyDeal_def Let_def)

lemma applyDeal_le:
  assumes "0 \<le> p" and "0 \<le> sd_value d" and "\<And>m. maxDiscount d = Some m \<Longrightarrow> 0 \<le> m"
  shows "applyDeal p d b \<le> p"
proof -
  have "0 \<le> p * (sd_value d / 100)" using assms(1,2) by simp
  then show ?thesis
    using assms by (auto simp: applyDeal_def Let_def min_def split: option.splits)
qed

lemma bb_step_inv:
  assumes "0 \<le> basePrice" and "result_ok basePrice best" and "0 \<le> currentPrice node"
    and "\<forall>n\<in>set stack. 0 \<le> currentPrice n"
    and "bb_step basePrice ds m best node stack = (best', stack')"
  shows "result_ok basePrice best' \<and> (\<forall>n\<in>set stack'. 0 \<le> currentPrice n)"
proof -
  have nn: "0 \<le> applyDeal (currentPrice node) (ds ! index node) basePrice"
    using assms(3) by (rule applyDeal_nonneg)
  show ?thesis
    using assms nn
    by (auto simp: bb_step_def Let_def result_ok_def split: if_splits)
qed

lemma bb_loop_inv:
  "0 \<le> basePrice \<Longrightarrow> result_ok basePrice best \<Longrightarrow> \<forall>n\<in>set stack. 0 \<le> currentPrice n \<Longrightarrow>
     result_ok basePrice (fst (bb_loop clock basePrice ds m startTime limit best stack t))"
proof (induction clock basePrice ds m startTime limit best stack t rule: bb_loop.induct)
  case (1 clock basePrice ds m startTime limit best stack t)
  show ?case
  proof (cases stack)
    case Nil
    then show ?thesis using "1.prems" by (subst bb_loop.simps) simp
  next
    case (Cons node rest)
    show ?thesis
    proof (cases "real_of_int (clock t - startTime) < limit")
      case False
      then show ?thesis using Cons "1.prems" by (subst bb_loop.simps) simp
    next
      case True
      obtain best' stack' where st: "bb_step basePrice ds m best node rest = (best', stack')"
        by (cases "bb_step basePrice ds m best node rest")
      have inv: "result_ok basePrice best' \<and> (\<forall>n\<in>set stack'. 0 \<le> currentPrice n)"
        using bb_step_inv [OF "1.prems"(1,2) _ _ st] "1.prems"(3) Cons by simp
      have "result_ok basePrice
              (fst (bb_loop clock basePrice ds m startTime limit best' stack' (t + 1)))"
        using "1.IH" [OF Cons True st [symmetric] "1.prems"(1)] inv by simp
      then show ?thesis using Cons True st by (subst bb_loop.simps) simp
    qed
  qed
qed

lemma result_ok_set_warnings [simp]: "result_ok b (set_warnings w r) = result_ok b r"
  by (simp add: result_ok_def set_warnings_def)

lemma result_ok_set_alternativeStacks [simp]:
  "result_ok b (set_alternativeStacks a r) = result_ok b r"
  by (simp add: result_ok_def set_alternativeStacks_def)

lemma branchAndBound_ok:
  assumes "0 \<le> basePrice"
  shows "result_ok basePrice (fst (branchAndBound clock basePrice ds m startTime limit t))"
proof -
  obtain b t' where l: "bb_loop clock basePrice ds m startTime limit
          (StackResult [] 0 basePrice [] None None) [rootNode basePrice ds] t = (b, t')"
    by (cases "bb_loop clock basePrice ds m startTime limit
          (StackResult [] 0 basePrice [] None None) [rootNode basePrice ds] t")
  have "result_ok basePrice (fst (bb_loop clock basePrice ds m startTime limit
          (StackResult [] 0 basePrice [] None None) [rootNode basePrice ds] t))"
    using assms by (intro bb_loop_inv) (simp_all add: result_ok_def rootNode_def)
  then show ?thesis
    by (simp add: branchAndBound_def l)
qed

lemma optimize_ok:
  assumes "memo_ok (memoCache this)"
  shows "(0 \<le> basePrice \<longrightarrow>
            result_ok basePrice (fst (fst (optimize clock basePrice ds constraints (this, t))))) \<and>
         memo_ok (memoCache (fst (snd (optimize clock basePrice ds constraints (this, t)))))"
proof (cases "memoCache this (getCacheKey basePrice ds constraints)")
  case (Some cached)
  then show ?thesis
    using assms by (auto simp: optimize_def memo_ok_def getCacheKey_def)
next
  case None
  define maxD where "maxD = (case maxDeals constraints of Some m \<Rightarrow> if m \<noteq> 0 then m else 5 | None \<Rightarrow> 5)"
  define limit where "limit = (case timeLimit constraints of Some l \<Rightarrow> if l \<noteq> 0 then l else 1000 | None \<Rightarrow> 1000)"
  define fd where "fd = applyConstraints (sortDeals ds basePrice) constraints"
  obtain r t1 where bb: "branchAndBound clock basePrice fd maxD (clock t) limit (t + 1) = (r, t1)"
    by (cases "branchAndBound clock basePrice fd maxD (clock t) limit (t + 1)")
  have rok: "0 \<le> basePrice \<Longrightarrow> result_ok basePrice r"
    using branchAndBound_ok [of basePrice clock fd maxD "clock t" limit "t + 1"] bb by simp
  obtain alts t2 where fa: "findAlternatives clock basePrice fd r 3 t1 = (alts, t2)"
    by (cases "findAlternatives clock basePrice fd r 3 t1")
  define r' where "r' = (if totalSavings r > 0 then set_alternativeStacks alts r else r)"
  have r'ok: "0 \<le> basePrice \<Longrightarrow> result_ok basePrice r'"
    using rok by (simp add: r'_def)
  have res: "optimize clock basePrice ds constraints (this, t) =
      ((r', sortDeals ds basePrice),
       (this\<lparr> memoCache := (memoCache this)(getCacheKey basePrice ds constraints \<mapsto> r') \<rparr>,
        if totalSavings r > 0 then t2 else t1))"
    using None bb fa
    by (simp add: optimize_def Let_def maxD_def limit_def fd_def r'_def)
  show ?thesis
    using assms r'ok
    by (auto simp: res memo_ok_def getCacheKey_def)
qed

lemma reachable_memo_ok: "reachable_optimizer st \<Longrightarrow> memo_ok (memoCache (fst st))"
proof (induction rule: reachable_optimizer.induct)
  case (new t)
  show ?case by (simp add: new_StackOptimizer_def memo_ok_def)
next
  case (optimize st clock basePrice ds constraints)
  then show ?case
    using optimize_ok [of "fst st" basePrice clock ds constraints "snd st"] by simp
qed

text \<open>
  C10. In every state of the optimizer and for every base price that is not negative, the
  result of \<open>optimize\<close> has \<open>0 \<le> finalPrice \<le> basePrice\<close> and
  \<open>totalSavings = basePrice - finalPrice\<close>, whatever the deals, the constraints and the
  clock. Applying a deal whose value and discount cap are not negative to a price that is
  not negative neither increases the price nor drives it below zero.
\<close>

theorem optimize_price_bounds:
  assumes "reachable_optimizer st" and "0 \<le> basePrice"
  shows "(let r = fst (fst (optimize clock basePrice ds constraints st))
          in 0 \<le> finalPrice r \<and> finalPrice r \<le> basePrice \<and>
             totalSavings r = basePrice - finalPrice r) \<and>
         (\<forall>d p. 0 \<le> p \<and> 0 \<le> sd_value d \<and> (\<forall>m. maxDiscount d = Some m \<longrightarrow> 0 \<le> m) \<longrightarrow>
                0 \<le> applyDeal p d basePrice \<and> applyDeal p d basePrice \<le> p)"
proof -
  have "result_ok basePrice (fst (fst (optimize clock basePrice ds constraints st)))"
    using optimize_ok [OF reachable_memo_ok [OF assms(1)], of basePrice clock ds constraints "snd st"]
      assms(2) by simp
  then show ?thesis
    using applyDeal_nonneg applyDeal_le by (simp add: result_ok_def Let_def)
qed

theorem optimize_price_bounds_witness:
  "(let r = fst (fst (optimize (\<lambda>n. 0) 100 twoCashbacks noConstraints (new_StackOptimizer, 0)))
    in 0 \<le> finalPrice r \<and> finalPrice r \<le> 100 \<and> totalSavings r = 100 - finalPrice r) \<and>
   0 \<le> applyDeal 100 (cashbackDeal ''A'' 10) 100 \<and>
   applyDeal 100 (cashbackDeal ''A'' 10) 100 \<le> 100"
proof -
  have r: "reachable_optimizer (new_StackOptimizer, 0)"
    by (rule reachable_optimizer.new)
  have d: "0 \<le> (100::real) \<and> 0 \<le> sd_value (cashbackDeal ''A'' 10) \<and>
      (\<forall>m. maxDiscount (cashbackDeal ''A'' 10) = Some m \<longrightarrow> 0 \<le> m)"
    by (simp add: cashbackDeal_def)
  show ?thesis
    using optimize_price_bounds [OF r, of 100 "\<lambda>n. 0" twoCashbacks noConstraints] d
    by (simp add: Let_def)
qed

section \<open>Phishing patterns\<close>










text \<open>In every state of the engine the trie is the trie of a list of patterns: the
  patterns of the constructor, then the lower-case forms of those added.\<close>

lemma reachable_trie_of_patterns:
  "reachable s \<Longrightarrow>
     \<exists>ps. phishingTrie s = fold (\<lambda>pattern t. trie_insert t pattern) ps new_TrieNode"
proof (induction rule: reachable.induct)
  case (new now)
  show ?case by (auto simp: new_Engine_def)
next
  case (detectFraud s deal sid)
  then show ?case by (simp add: detectFraud_state detectFakeDeals_frame)
next
  case (detectFakeDeals s ds)
  then show ?case by (simp add: detectFakeDeals_frame)
next
  case (detectSuspiciousUserBehavior s now userId action)
  then show ?case by (simp add: detectSuspiciousUserBehavior_def Let_def)
next
  case (getTopAnomalies s n)
  then show ?case by (simp add: getTopAnomalies_def split: prod.splits)
next
  case (updateSellerReputation s seller)
  then show ?case by (simp add: updateSellerReputation_def)
next
  case (addPhishingPattern s pattern)
  then obtain ps where
    "phishingTrie s = fold (\<lambda>pattern t. trie_insert t pattern) ps new_TrieNode"
    by blast
  then have "phishingTrie (addPhishingPattern pattern s)
      = fold (\<lambda>pattern t. trie_insert t pattern) (ps @ [toLowerCase pattern]) new_TrieNode"
    by (simp add: addPhishingPattern_def)
  then show ?case by blast
next
  case (updatePriceHistory s now1 now2 pid p)
  then show ?case by (simp add: updatePriceHistory_def Let_def)
next
  case (clearUserActivityCache s)
  then show ?case by (simp add: clearUserActivityCache_def)
qed



section \<open>The anomaly heap\<close>

lemma parent_less: "0 < i \<Longrightarrow> parent i < i"
  by (simp add: parent_def)

lemma parent_int: "0 < i \<Longrightarrow> nat ((int i - 1) div 2) = parent i"
  by (simp add: parent_def nat_div_distrib nat_diff_distrib') 

lemma parent_int_neg: "(0 \<le> (int i - 1) div 2) = (0 < i)"
  by (cases i) auto

lemma swap_length [simp]: "length (swap h i j) = length h"
  by (simp add: swap_def)

lemma swap_nth:
  "i < length h \<Longrightarrow> j < length h \<Longrightarrow>
     swap h i j ! n = (if n = j then h ! i else if n = i then h ! j else h ! n)"
  by (auto simp: swap_def nth_list_update)

lemma swap_mset: "i < length h \<Longrightarrow> j < length h \<Longrightarrow> mset (swap h i j) = mset h"
  by (simp add: swap_def mset_swap)

lemma swap_set: "i < length h \<Longrightarrow> j < length h \<Longrightarrow> set (swap h i j) = set h"
  using swap_mset [of i h j] by (metis set_mset_mset)

lemma heapifyUp_step:
  "heapifyUp cmp h k =
     (if 0 < k \<and> goes_above cmp (h ! k) (h ! parent k)
      then heapifyUp cmp (swap h k (parent k)) (parent k) else h)"
  by (subst heapifyUp.simps) (auto simp: Let_def parent_int parent_int_neg goes_above_def)

lemma up_inv_swap:
  assumes u: "up_inv key h k" and k: "k < length h" "0 < k"
    and lt: "key (h ! k) < key (h ! parent k)"
  shows "up_inv key (swap h k (parent k)) (parent k)"
  unfolding up_inv_def
proof (intro allI impI conjI)
  let ?p = "parent k"
  let ?h = "swap h k ?p"
  have pk: "?p < k" using k by (simp add: parent_less)
  have pl: "?p < length h" using pk k by simp
  note nth = swap_nth [OF k(1) pl]
  { fix i assume i: "i < length ?h" "0 < i" "i \<noteq> ?p"
    have il: "i < length h" using i by simp
    have pi: "parent i < i" using i by (simp add: parent_less)
    have pil: "parent i < length h" using pi il by simp
    show "key (?h ! parent i) \<le> key (?h ! i)"
    proof (cases "i = k")
      case True
      then show ?thesis using lt pk by (simp add: nth)
    next
      case ik: False
      show ?thesis
      proof (cases "parent i = k")
        case True
        then have "key (h ! ?p) \<le> key (h ! i)"
          using u il i(2) k(2) by (auto simp: up_inv_def)
        then show ?thesis using True ik i(3) pk by (simp add: nth)
      next
        case pik: False
        have base: "key (h ! parent i) \<le> key (h ! i)"
          using u il i(2) ik by (auto simp: up_inv_def)
        show ?thesis
        proof (cases "parent i = ?p")
          case True
          then have "key (h ! k) \<le> key (h ! i)" using base lt by simp
          then show ?thesis using True ik i(3) pk by (simp add: nth)
        next
          case False
          then show ?thesis using base ik i(3) pik by (simp add: nth)
        qed
      qed
    qed }
  { fix i assume i: "i < length ?h" "0 < i" "parent i = ?p" "0 < ?p"
    have il: "i < length h" using i by simp
    have ppk: "parent ?p < ?p" using i(4) by (simp add: parent_less)
    have gp: "key (h ! parent ?p) \<le> key (h ! ?p)"
      using u pl i(4) pk by (auto simp: up_inv_def)
    have "key (h ! parent ?p) \<le> key (?h ! i)"
    proof (cases "i = k")
      case True
      then show ?thesis using gp pk by (simp add: nth)
    next
      case False
      then have "key (h ! ?p) \<le> key (h ! i)"
        using u il i(2,3) by (auto simp: up_inv_def)
      moreover have "i \<noteq> ?p" using i(2,3) parent_less [of i] by auto
      ultimately show ?thesis using gp False by (simp add: nth)
    qed
    moreover have "?h ! parent ?p = h ! parent ?p"
      using ppk pk by (simp add: nth)
    ultimately show "key (?h ! parent ?p) \<le> key (?h ! i)" by simp }
qed

lemma heapifyUp_correct:
  "keyed cmp key S \<Longrightarrow> up_inv key h k \<Longrightarrow> k < length h \<Longrightarrow> set h \<subseteq> S \<Longrightarrow>
     heap_inv key (heapifyUp cmp h k) \<and> mset (heapifyUp cmp h k) = mset h"
proof (induction cmp h k rule: heapifyUp.induct)
  case (1 cmp h k)
  note assms = "1.prems"(1)
  note prems = "1.prems"(2-)
  show ?case
  proof (cases "0 < k \<and> goes_above cmp (h ! k) (h ! parent k)")
    case True
    then have k0: "0 < k" and ab: "goes_above cmp (h ! k) (h ! parent k)" by simp_all
    have pk: "parent k < k" using k0 by (simp add: parent_less)
    have pl: "parent k < length h" using pk prems by simp
    have "h ! k \<in> S" "h ! parent k \<in> S" using prems pl by auto
    then have lt: "key (h ! k) < key (h ! parent k)"
      using assms ab by (auto simp: keyed_def)
    have u': "up_inv key (swap h k (parent k)) (parent k)"
      using up_inv_swap [OF prems(1,2) k0 lt] .
    have s': "set (swap h k (parent k)) \<subseteq> S"
      using prems pl by (simp add: swap_set)
    have pc: "0 \<le> (int k - 1) div 2 \<and> js_lt (cmp (h ! k) (h ! nat ((int k - 1) div 2))) (Fin 0)"
      using k0 ab by (simp add: parent_int parent_int_neg goes_above_def)
    have "heap_inv key (heapifyUp cmp (swap h k (parent k)) (parent k)) \<and>
          mset (heapifyUp cmp (swap h k (parent k)) (parent k)) = mset (swap h k (parent k))"
      using "1.IH" [OF refl pc assms] u' s' pl k0 by (simp add: parent_int)
    moreover have "heapifyUp cmp h k = heapifyUp cmp (swap h k (parent k)) (parent k)"
      by (subst heapifyUp_step) (simp only: k0 ab simp_thms if_True)
    ultimately show ?thesis
      using prems pl by (simp add: swap_mset)
  next
    case False
    have "heap_inv key h"
      unfolding heap_inv_def
    proof (intro allI impI)
      fix i assume i: "i < length h" "0 < i"
      show "key (h ! parent i) \<le> key (h ! i)"
      proof (cases "i = k")
        case True
        have pl: "parent k < length h" using parent_less [of k] i True by simp
        have "h ! k \<in> S" "h ! parent k \<in> S" using prems pl by auto
        then have "\<not> key (h ! k) < key (h ! parent k)"
          using assms False i True by (auto simp: keyed_def)
        then show ?thesis using True by simp
      next
        case False
        then show ?thesis using prems(1) i by (auto simp: up_inv_def)
      qed
    qed
    moreover have "heapifyUp cmp h k = h"
      by (subst heapifyUp_step) (simp only: False if_False)
    ultimately show ?thesis by simp
  qed
qed


lemma heapifyDown_step:
  "heapifyDown cmp h k =
     (if smallest_of cmp h k \<noteq> k
      then heapifyDown cmp (swap h k (smallest_of cmp h k)) (smallest_of cmp h k) else h)"
  by (subst heapifyDown.simps) (auto simp: Let_def smallest_of_def goes_above_def)

lemma parent_children: "0 < i \<Longrightarrow> parent i = k \<longleftrightarrow> i = 2 * k + 1 \<or> i = 2 * k + 2"
  by (auto simp: parent_def)

lemma smallest_of_props:
  assumes "keyed cmp key S" and "set h \<subseteq> S" and "k < length h"
  shows "smallest_of cmp h k < length h"
    and "smallest_of cmp h k = k \<or> smallest_of cmp h k = 2 * k + 1 \<or> smallest_of cmp h k = 2 * k + 2"
    and "smallest_of cmp h k \<noteq> k \<Longrightarrow> key (h ! smallest_of cmp h k) < key (h ! k)"
    and "key (h ! smallest_of cmp h k) \<le> key (h ! k)"
    and "2 * k + 1 < length h \<Longrightarrow> key (h ! smallest_of cmp h k) \<le> key (h ! (2 * k + 1))"
    and "2 * k + 2 < length h \<Longrightarrow> key (h ! smallest_of cmp h k) \<le> key (h ! (2 * k + 2))"
proof -
  have ab: "\<And>i j. i < length h \<Longrightarrow> j < length h \<Longrightarrow>
      goes_above cmp (h ! i) (h ! j) \<longleftrightarrow> key (h ! i) < key (h ! j)"
    using assms(1,2) by (meson keyed_def nth_mem subsetD)
  show "smallest_of cmp h k < length h"
    using assms(3) by (simp add: smallest_of_def Let_def)
  show "smallest_of cmp h k = k \<or> smallest_of cmp h k = 2 * k + 1 \<or> smallest_of cmp h k = 2 * k + 2"
    by (simp add: smallest_of_def Let_def)
  show "smallest_of cmp h k \<noteq> k \<Longrightarrow> key (h ! smallest_of cmp h k) < key (h ! k)"
    using assms(3) by (auto simp: smallest_of_def Let_def ab split: if_splits)
  show "key (h ! smallest_of cmp h k) \<le> key (h ! k)"
    using assms(3) by (auto simp: smallest_of_def Let_def ab split: if_splits)
  show "2 * k + 1 < length h \<Longrightarrow> key (h ! smallest_of cmp h k) \<le> key (h ! (2 * k + 1))"
    using assms(3) by (auto simp: smallest_of_def Let_def ab split: if_splits)
  show "2 * k + 2 < length h \<Longrightarrow> key (h ! smallest_of cmp h k) \<le> key (h ! (2 * k + 2))"
    using assms(3) by (auto simp: smallest_of_def Let_def ab split: if_splits)
qed

lemma down_inv_swap:
  assumes d: "down_inv key h k" and k: "k < length h"
    and s: "s < length h" "s = 2 * k + 1 \<or> s = 2 * k + 2"
    and lt: "key (h ! s) < key (h ! k)"
    and l: "2 * k + 1 < length h \<Longrightarrow> key (h ! s) \<le> key (h ! (2 * k + 1))"
    and r: "2 * k + 2 < length h \<Longrightarrow> key (h ! s) \<le> key (h ! (2 * k + 2))"
  shows "down_inv key (swap h k s) s"
  unfolding down_inv_def
proof (intro allI impI conjI)
  let ?h = "swap h k s"
  have ks: "k < s" using s(2) by auto
  have ps: "parent s = k" using s(2) by (auto simp: parent_def)
  note nth = swap_nth [OF k s(1)]
  { fix i assume i: "i < length ?h" "0 < i" "parent i \<noteq> s"
    have il: "i < length h" using i by simp
    have pi: "parent i < i" using i by (simp add: parent_less)
    show "key (?h ! parent i) \<le> key (?h ! i)"
    proof (cases "parent i = k")
      case True
      then have c: "i = 2 * k + 1 \<or> i = 2 * k + 2" using i(2) by (simp add: parent_children)
      have ik: "i \<noteq> k" using True pi by auto
      show ?thesis
      proof (cases "i = s")
        case True
        then show ?thesis using lt ps ks by (simp add: nth)
      next
        case False
        have "key (h ! s) \<le> key (h ! i)" using c l r il by auto
        then show ?thesis using False ik True ks by (simp add: nth)
      qed
    next
      case False
      then have base: "key (h ! parent i) \<le> key (h ! i)"
        using d il i(2) by (auto simp: down_inv_def)
      have i_s: "i \<noteq> s" using False ps by auto
      show ?thesis
      proof (cases "i = k")
        case True
        then have k0: "0 < k" using i(2) by simp
        have "key (h ! parent k) \<le> key (h ! s)"
          using d s(1) ks ps k0 by (auto simp: down_inv_def)
        moreover have "parent k \<noteq> s" "parent k \<noteq> k"
          using parent_less [OF k0] ks by auto
        ultimately show ?thesis using True ks by (simp add: nth)
      next
        case ik: False
        then show ?thesis using base i_s False i(3) by (simp add: nth)
      qed
    qed }
  { fix i assume i: "i < length ?h" "0 < i" "parent i = s" "0 < s"
    have il: "i < length h" using i by simp
    have pi: "parent i < i" using i(2) by (rule parent_less)
    have "key (h ! s) \<le> key (h ! i)"
      using d il i(2,3) ks by (auto simp: down_inv_def)
    moreover have "i \<noteq> k" "i \<noteq> s" using pi i(3) ks by auto
    ultimately show "key (?h ! parent s) \<le> key (?h ! i)"
      using ps ks by (simp add: nth) }
qed

lemma heapifyDown_correct:
  "keyed cmp key S \<Longrightarrow> down_inv key h k \<Longrightarrow> k < length h \<Longrightarrow> set h \<subseteq> S \<Longrightarrow>
     heap_inv key (heapifyDown cmp h k) \<and> mset (heapifyDown cmp h k) = mset h"
proof (induction cmp h k rule: heapifyDown.induct)
  case (1 cmp h k)
  note kd = "1.prems"(1)
  note prems = "1.prems"(2-)
  let ?s = "smallest_of cmp h k"
  note sp = smallest_of_props [OF kd prems(3) prems(2)]
  show ?case
  proof (cases "?s = k")
    case True
    have "heap_inv key h"
      unfolding heap_inv_def
    proof (intro allI impI)
      fix i assume i: "i < length h" "0 < i"
      show "key (h ! parent i) \<le> key (h ! i)"
      proof (cases "parent i = k")
        case pk: True
        then have "i = 2 * k + 1 \<or> i = 2 * k + 2" using i(2) by (simp add: parent_children)
        then show ?thesis using sp(5,6) i(1) True pk by auto
      next
        case False
        then show ?thesis using prems(1) i by (auto simp: down_inv_def)
      qed
    qed
    moreover have "heapifyDown cmp h k = h"
      by (subst heapifyDown_step) (simp only: True simp_thms if_False)
    ultimately show ?thesis by simp
  next
    case False
    have s2: "?s = 2 * k + 1 \<or> ?s = 2 * k + 2" using sp(2) False by simp
    have d': "down_inv key (swap h k ?s) ?s"
      using down_inv_swap [OF prems(1,2) sp(1) s2 sp(3) [OF False] sp(5) sp(6)] .
    have s': "set (swap h k ?s) \<subseteq> S"
      using prems sp(1) by (simp add: swap_set)
    have sm: "(if 2 * k + 2 < length h
          \<and> js_lt (cmp (h ! (2 * k + 2))
                (h ! (if 2 * k + 1 < length h \<and> js_lt (cmp (h ! (2 * k + 1)) (h ! k)) (Fin 0)
                      then 2 * k + 1 else k))) (Fin 0)
        then 2 * k + 2
        else (if 2 * k + 1 < length h \<and> js_lt (cmp (h ! (2 * k + 1)) (h ! k)) (Fin 0)
              then 2 * k + 1 else k)) = ?s"
      by (simp add: smallest_of_def Let_def goes_above_def)
    note IH = "1.IH" [OF refl refl refl refl refl, unfolded sm]
    have "heap_inv key (heapifyDown cmp (swap h k ?s) ?s) \<and>
          mset (heapifyDown cmp (swap h k ?s) ?s) = mset (swap h k ?s)"
      using IH [OF False kd d' _ s'] sp(1) by simp
    moreover have "heapifyDown cmp h k = heapifyDown cmp (swap h k ?s) ?s"
      by (subst heapifyDown_step) (simp only: False simp_thms if_True)
    ultimately show ?thesis
      using prems sp(1) by (simp add: swap_mset)
  qed
qed


lemma heap_insert_correct:
  assumes kd: "keyed cmp key S" and hi: "heap_inv key h" and hs: "set h \<subseteq> S" and v: "v \<in> S"
  shows "heap_inv key (heap_insert cmp h v) \<and> mset (heap_insert cmp h v) = add_mset v (mset h)"
proof -
  have u: "up_inv key (h @ [v]) (length h)"
    unfolding up_inv_def
  proof (intro allI impI conjI)
    fix i assume i: "i < length (h @ [v])" "0 < i" "i \<noteq> length h"
    then have il: "i < length h" by simp
    then have "parent i < length h" using parent_less [OF i(2)] by simp
    then show "key ((h @ [v]) ! parent i) \<le> key ((h @ [v]) ! i)"
      using hi il i(2) by (simp add: heap_inv_def nth_append)
  next
    fix i assume i: "i < length (h @ [v])" "0 < i" "parent i = length h"
    then have False using parent_less [OF i(2)] by simp
    then show "key ((h @ [v]) ! parent (length h)) \<le> key ((h @ [v]) ! i)" ..
  qed
  have "heap_inv key (heapifyUp cmp (h @ [v]) (length h)) \<and>
        mset (heapifyUp cmp (h @ [v]) (length h)) = mset (h @ [v])"
    using heapifyUp_correct [OF kd u] hs v by simp
  then show ?thesis by (simp add: heap_insert_def)
qed

lemma fold_heap_insert_correct:
  "keyed cmp key S \<Longrightarrow> heap_inv key h \<Longrightarrow> set h \<subseteq> S \<Longrightarrow> set xs \<subseteq> S \<Longrightarrow>
     heap_inv key (fold (\<lambda>a h. heap_insert cmp h a) xs h) \<and>
     mset (fold (\<lambda>a h. heap_insert cmp h a) xs h) = mset xs + mset h"
proof (induction xs arbitrary: h)
  case Nil
  then show ?case by simp
next
  case (Cons x xs)
  have 1: "heap_inv key (heap_insert cmp h x) \<and> mset (heap_insert cmp h x) = add_mset x (mset h)"
    using heap_insert_correct [OF Cons.prems(1,2,3)] Cons.prems(4) by simp
  then have "set (heap_insert cmp h x) = insert x (set h)"
    by (metis set_mset_add_mset_insert set_mset_mset)
  then have 2: "set (heap_insert cmp h x) \<subseteq> S" using Cons.prems by simp
  show ?case
    using Cons.IH [OF Cons.prems(1) conjunct1 [OF 1] 2] Cons.prems(4) 1 by simp
qed

lemma heap_min:
  "heap_inv key h \<Longrightarrow> i < length h \<Longrightarrow> key (h ! 0) \<le> key (h ! i)"
proof (induction i rule: less_induct)
  case (less i)
  show ?case
  proof (cases "i = 0")
    case True
    then show ?thesis by simp
  next
    case False
    then have i0: "0 < i" by simp
    have p: "parent i < i" using i0 by (rule parent_less)
    have "key (h ! 0) \<le> key (h ! parent i)"
      using less.IH [OF p less.prems(1)] p less.prems(2) by simp
    also have "\<dots> \<le> key (h ! i)"
      using less.prems i0 by (simp add: heap_inv_def)
    finally show ?thesis .
  qed
qed

lemma mset_replace_first:
  assumes "2 \<le> length h"
  shows "add_mset (h ! 0) (mset ((butlast h)[0 := last h])) = mset h"
proof -
  obtain x xs where h: "h = x # xs" and xs: "xs \<noteq> []"
    using assms by (cases h) (auto simp: Suc_le_eq)
  have "(butlast h)[0 := last h] = last xs # butlast xs"
    using h xs by simp
  moreover have "add_mset (last xs) (mset (butlast xs)) = mset xs"
    using xs by (metis append_butlast_last_id mset.simps(2) mset_append add_mset_add_single
        union_mset_add_mset_right add.right_neutral mset.simps(1))
  ultimately show ?thesis using h by simp
qed

lemma extractMin_correct:
  assumes kd: "keyed cmp key S" and hi: "heap_inv key h" and hs: "set h \<subseteq> S" and ne: "h \<noteq> []"
  shows "\<exists>h'. extractMin cmp h = (Some (h ! 0), h') \<and> mset h = add_mset (h ! 0) (mset h') \<and>
           heap_inv key h' \<and> (\<forall>x\<in>set h. key (h ! 0) \<le> key x)"
proof -
  have mn: "\<forall>x\<in>set h. key (h ! 0) \<le> key x"
    using heap_min [OF hi] by (auto simp: in_set_conv_nth)
  show ?thesis
  proof (cases "length h = 1")
    case True
    then obtain x where h: "h = [x]" by (cases h) auto
    show ?thesis using mn by (simp add: extractMin_def h heap_inv_def)
  next
    case False
    then have l2: "2 \<le> length h" using ne by (cases h) (auto simp: Suc_le_eq)
    let ?h = "(butlast h)[0 := last h]"
    have len: "length ?h = length h - 1" by simp
    have d: "down_inv key ?h 0"
      unfolding down_inv_def
    proof (intro allI impI conjI)
      fix i assume i: "i < length ?h" "0 < i" "parent i \<noteq> 0"
      have il: "i < length h - 1" using i by simp
      have p: "parent i < i" using i(2) by (rule parent_less)
      have "key (h ! parent i) \<le> key (h ! i)"
        using hi il i(2) by (simp add: heap_inv_def)
      then show "key (?h ! parent i) \<le> key (?h ! i)"
        using il i(2,3) p by (simp add: nth_butlast)
    next
      fix i assume "(0::nat) < 0"
      then show "key (?h ! parent 0) \<le> key (?h ! i)" by simp
    qed
    have s: "set ?h \<subseteq> S"
    proof -
      have "set ?h \<subseteq> insert (last h) (set (butlast h))" by (rule set_update_subset_insert)
      also have "\<dots> \<subseteq> set h" using ne by (auto dest: in_set_butlastD)
      finally show ?thesis using hs by simp
    qed
    have "heap_inv key (heapifyDown cmp ?h 0) \<and> mset (heapifyDown cmp ?h 0) = mset ?h"
      using heapifyDown_correct [OF kd d _ s] l2 by simp
    then show ?thesis
      using mn False ne l2 mset_replace_first [OF l2]
      by (simp add: extractMin_def Let_def)
  qed
qed

lemma keyed_anomaly: "keyed anomalyCompare anomaly_key numeric"
  unfolding keyed_def
proof (intro ballI)
  fix a b assume "a \<in> numeric" "b \<in> numeric"
  then show "goes_above anomalyCompare a b \<longleftrightarrow> anomaly_key a < anomaly_key b"
    by (cases "anomalyScore a"; cases "anomalyScore b")
       (simp_all add: numeric_def goes_above_def anomalyCompare_def anomaly_key_def)
qed

lemma anomaly_key_le:
  "a \<in> numeric \<Longrightarrow> b \<in> numeric \<Longrightarrow>
     anomaly_key a \<le> anomaly_key b \<longleftrightarrow> \<not> js_lt (anomalyScore a) (anomalyScore b)"
  by (cases "anomalyScore a"; cases "anomalyScore b")
     (auto simp: numeric_def anomaly_key_def)


lemma getTopAnomalies_loop_correct:
  "heap_ok heap \<Longrightarrow>
     \<exists>ex heap'. getTopAnomalies_loop n i heap acc = (acc @ ex, heap') \<and>
        mset heap = mset ex + mset heap' \<and> heap_ok heap' \<and>
        sorted_wrt (\<lambda>a b. anomaly_key a \<le> anomaly_key b) ex \<and>
        (\<forall>x\<in>set ex. \<forall>y\<in>set heap'. anomaly_key x \<le> anomaly_key y) \<and>
        int (length ex) = max 0 (min (n - i) (int (length heap)))"
proof (induction n i heap acc rule: getTopAnomalies_loop.induct)
  case (1 n i heap acc)
  show ?case
  proof (cases "i < n \<and> heap_size heap > 0")
    case False
    then have "getTopAnomalies_loop n i heap acc = (acc @ [], heap)"
      by (subst getTopAnomalies_loop.simps) (simp only: False if_False append_Nil2)
    moreover have "int (length ([]::Anomaly list)) = max 0 (min (n - i) (int (length heap)))"
      using False by (auto simp: heap_size_def)
    ultimately show ?thesis using "1.prems" by (intro exI [of _ "[]"] exI [of _ heap]) simp
  next
    case True
    then have ne: "heap \<noteq> []" by (auto simp: heap_size_def)
    from "1.prems" have hi: "heap_inv anomaly_key heap" and hs: "set heap \<subseteq> numeric"
      by (simp_all add: heap_ok_def)
    obtain h1 where ex: "extractMin anomalyCompare heap = (Some (heap ! 0), h1)"
      and ms: "mset heap = add_mset (heap ! 0) (mset h1)"
      and hi1: "heap_inv anomaly_key h1"
      and mn: "\<forall>x\<in>set heap. anomaly_key (heap ! 0) \<le> anomaly_key x"
      using extractMin_correct [OF keyed_anomaly hi hs ne] by blast
    have sub: "set h1 \<subseteq> set heap"
      using ms by (metis mset_add set_mset_mset subsetI union_single_eq_member insert_iff
          set_mset_add_mset_insert)
    have ok1: "heap_ok h1" using hi1 sub hs by (auto simp: heap_ok_def)
    obtain ex' heap' where
      r: "getTopAnomalies_loop n (i + 1) h1 (acc @ [heap ! 0]) = ((acc @ [heap ! 0]) @ ex', heap')"
      and ms': "mset h1 = mset ex' + mset heap'"
      and ok': "heap_ok heap'"
      and so: "sorted_wrt (\<lambda>a b. anomaly_key a \<le> anomaly_key b) ex'"
      and ab: "\<forall>x\<in>set ex'. \<forall>y\<in>set heap'. anomaly_key x \<le> anomaly_key y"
      and len: "int (length ex') = max 0 (min (n - (i + 1)) (int (length h1)))"
      using "1.IH" [OF True ex [symmetric] ok1] by auto
    have sets: "set ex' \<union> set heap' = set h1"
      using ms' by (metis set_mset_mset set_mset_union)
    have l1: "length heap = Suc (length h1)"
      using ms by (metis size_mset size_add_mset)
    have res: "getTopAnomalies_loop n i heap acc = (acc @ (heap ! 0 # ex'), heap')"
      using True ex r by (subst getTopAnomalies_loop.simps) simp
    have "mset heap = mset (heap ! 0 # ex') + mset heap'"
      using ms ms' by simp
    moreover have "sorted_wrt (\<lambda>a b. anomaly_key a \<le> anomaly_key b) (heap ! 0 # ex')"
      using so mn sub sets by auto
    moreover have "\<forall>x\<in>set (heap ! 0 # ex'). \<forall>y\<in>set heap'. anomaly_key x \<le> anomaly_key y"
      using ab mn sub sets by auto
    moreover have "int (length (heap ! 0 # ex')) = max 0 (min (n - i) (int (length heap)))"
      using len l1 True by auto
    ultimately show ?thesis
      using res ok' by blast
  qed
qed

lemma getTopAnomalies_heap:
  assumes ok: "heap_ok (anomalyHeap s)"
  shows "length (fst (getTopAnomalies n s)) = nat (min n (int (length (anomalyHeap s)))) \<and>
         mset (fst (getTopAnomalies n s)) \<subseteq># mset (anomalyHeap s) \<and>
         sorted_wrt (\<lambda>a b. \<not> js_lt (anomalyScore a) (anomalyScore b)) (fst (getTopAnomalies n s)) \<and>
         (\<forall>x\<in>set (fst (getTopAnomalies n s)).
            \<forall>y\<in>#(mset (anomalyHeap s) - mset (fst (getTopAnomalies n s))).
              \<not> js_lt (anomalyScore x) (anomalyScore y)) \<and>
         mset (anomalyHeap (snd (getTopAnomalies n s))) = mset (anomalyHeap s) \<and>
         heap_ok (anomalyHeap (snd (getTopAnomalies n s)))"
proof -
  obtain ex heap' where
    r: "getTopAnomalies_loop n 0 (anomalyHeap s) [] = ([] @ ex, heap')"
    and ms: "mset (anomalyHeap s) = mset ex + mset heap'"
    and ok': "heap_ok heap'"
    and so: "sorted_wrt (\<lambda>a b. anomaly_key a \<le> anomaly_key b) ex"
    and ab: "\<forall>x\<in>set ex. \<forall>y\<in>set heap'. anomaly_key x \<le> anomaly_key y"
    and len: "int (length ex) = max 0 (min (n - 0) (int (length (anomalyHeap s))))"
    using getTopAnomalies_loop_correct [OF ok, of n 0 "[]"] by blast
  have sets: "set ex \<union> set heap' = set (anomalyHeap s)"
    using ms by (metis set_mset_mset set_mset_union)
  have num: "set ex \<subseteq> numeric" "set heap' \<subseteq> numeric"
    using sets ok by (auto simp: heap_ok_def)
  have fin: "heap_inv anomaly_key (fold (\<lambda>a h. heap_insert anomalyCompare h a) ex heap') \<and>
      mset (fold (\<lambda>a h. heap_insert anomalyCompare h a) ex heap') = mset ex + mset heap'"
    using fold_heap_insert_correct [OF keyed_anomaly _ num(2) num(1)] ok'
    by (simp add: heap_ok_def)
  have res: "fst (getTopAnomalies n s) = ex"
    and st: "anomalyHeap (snd (getTopAnomalies n s))
       = fold (\<lambda>a h. heap_insert anomalyCompare h a) ex heap'"
    using r by (simp_all add: getTopAnomalies_def)
  have 1: "length ex = nat (min n (int (length (anomalyHeap s))))"
    using len by auto
  have 2: "mset ex \<subseteq># mset (anomalyHeap s)" using ms by simp
  have "\<And>x y. x \<in> set ex \<Longrightarrow> y \<in> set ex \<Longrightarrow> anomaly_key x \<le> anomaly_key y \<Longrightarrow>
      \<not> js_lt (anomalyScore x) (anomalyScore y)"
    using num(1) anomaly_key_le by blast
  then have 3: "sorted_wrt (\<lambda>a b. \<not> js_lt (anomalyScore a) (anomalyScore b)) ex"
    using so by (rule sorted_wrt_mono_rel)
  have 4: "\<forall>x\<in>set ex. \<forall>y\<in>#(mset (anomalyHeap s) - mset ex).
      \<not> js_lt (anomalyScore x) (anomalyScore y)"
  proof (intro ballI)
    fix x y assume x: "x \<in> set ex" and y: "y \<in># mset (anomalyHeap s) - mset ex"
    from y have yh: "y \<in> set heap'" by (simp add: ms)
    then have "anomaly_key x \<le> anomaly_key y" using ab x by blast
    then show "\<not> js_lt (anomalyScore x) (anomalyScore y)"
      using anomaly_key_le [of x y] x yh num by blast
  qed
  have 5: "mset (fold (\<lambda>a h. heap_insert anomalyCompare h a) ex heap') = mset (anomalyHeap s)"
    using fin ms by simp
  have 6: "heap_ok (fold (\<lambda>a h. heap_insert anomalyCompare h a) ex heap')"
    using fin 5 ok by (metis heap_ok_def set_mset_mset)
  show ?thesis
    unfolding res st using 1 2 3 4 5 6 by blast
qed


lemma js_sub_numeric: "js_lt b a \<Longrightarrow> js_sub a b \<noteq> NaN"
  by (cases a; cases b) simp_all

lemma detectFakeDeals_loop_heap_ok:
  "heap_ok h \<Longrightarrow> heap_ok (snd (detectFakeDeals_loop ds h rs))"
proof (induction ds arbitrary: h rs)
  case Nil
  then show ?case by simp
next
  case (Cons d ds)
  show ?case
  proof (cases "js_gt (discountPercentageOf d) (thresholdPercentageOf d)")
    case False
    then show ?thesis using Cons by simp
  next
    case True
    let ?a = "\<lparr> dealId = deal_id d,
      anomalyScore = js_sub (discountPercentageOf d) (thresholdPercentageOf d) \<rparr>"
    have n: "?a \<in> numeric"
      using True js_sub_numeric by (simp add: numeric_def js_gt_def)
    have 1: "heap_inv anomaly_key (heap_insert anomalyCompare h ?a) \<and>
        mset (heap_insert anomalyCompare h ?a) = add_mset ?a (mset h)"
      using heap_insert_correct [OF keyed_anomaly _ _ n] Cons.prems by (simp add: heap_ok_def)
    then have "set (heap_insert anomalyCompare h ?a) = insert ?a (set h)"
      by (metis set_mset_add_mset_insert set_mset_mset)
    then have "heap_ok (heap_insert anomalyCompare h ?a)"
      using 1 n Cons.prems by (simp add: heap_ok_def)
    then show ?thesis using True Cons.IH by (simp add: Let_def)
  qed
qed

lemma reachable_heap_ok: "reachable s \<Longrightarrow> heap_ok (anomalyHeap s)"
proof (induction rule: reachable.induct)
  case (new now)
  show ?case by (simp add: anomalyHeap_new_Engine heap_ok_def heap_inv_def)
next
  case (detectFraud s deal sid)
  then show ?case
    using detectFakeDeals_loop_heap_ok [of "anomalyHeap s" "[deal]" "[]"]
    by (simp only: detectFraud_state anomalyHeap_detectFakeDeals)
next
  case (detectFakeDeals s ds)
  then show ?case
    using detectFakeDeals_loop_heap_ok [of "anomalyHeap s" ds "[]"]
    by (simp only: anomalyHeap_detectFakeDeals)
next
  case (detectSuspiciousUserBehavior s now userId action)
  then show ?case by (simp add: detectSuspiciousUserBehavior_def Let_def)
next
  case (getTopAnomalies s n)
  then show ?case using getTopAnomalies_heap by blast
next
  case (updateSellerReputation s seller)
  then show ?case by (simp add: updateSellerReputation_def)
next
  case (addPhishingPattern s pattern)
  then show ?case by (simp add: addPhishingPattern_def)
next
  case (updatePriceHistory s now1 now2 pid p)
  then show ?case by (simp add: updatePriceHistory_def Let_def)
next
  case (clearUserActivityCache s)
  then show ?case by (simp add: clearUserActivityCache_def)
qed

text \<open>
  C5. In every state of the engine, \<open>getTopAnomalies n\<close> returns \<open>min n size\<close> of the
  recorded anomalies (none for a negative \<open>n\<close>), in order of non-increasing score, each
  with a score at least that of every anomaly left out; and the heap afterwards holds the same
  anomalies as before, each as many times.
\<close>

theorem getTopAnomalies_returns_largest:
  assumes "reachable s"
  shows "length (fst (getTopAnomalies n s)) = nat (min n (int (heap_size (anomalyHeap s)))) \<and>
         mset (fst (getTopAnomalies n s)) \<subseteq># mset (anomalyHeap s) \<and>
         sorted_wrt (\<lambda>a b. \<not> js_lt (anomalyScore a) (anomalyScore b)) (fst (getTopAnomalies n s)) \<and>
         (\<forall>x\<in>set (fst (getTopAnomalies n s)).
            \<forall>y\<in>#(mset (anomalyHeap s) - mset (fst (getTopAnomalies n s))).
              \<not> js_lt (anomalyScore x) (anomalyScore y)) \<and>
         mset (anomalyHeap (snd (getTopAnomalies n s))) = mset (anomalyHeap s)"
  using getTopAnomalies_heap [OF reachable_heap_ok [OF assms], of n]
  by (simp add: heap_size_def)

theorem getTopAnomalies_returns_largest_witness:
  "fst (getTopAnomalies 2 (snd (detectFakeDeals threeBargains (new_Engine 0)))) =
     [\<lparr> dealId = ''d1'', anomalyScore = Fin 29 \<rparr>, \<lparr> dealId = ''d4'', anomalyScore = Fin 20 \<rparr>] \<and>
   mset (anomalyHeap (snd (getTopAnomalies 2 (snd (detectFakeDeals threeBargains (new_Engine 0))))))
     = {#\<lparr> dealId = ''d1'', anomalyScore = Fin 29 \<rparr>,
         \<lparr> dealId = ''d3'', anomalyScore = Fin 10 \<rparr>,
         \<lparr> dealId = ''d4'', anomalyScore = Fin 20 \<rparr>#}"
proof -
  let ?s = "snd (detectFakeDeals threeBargains (new_Engine 0))"
  have r: "reachable ?s"
    by (intro reachable.detectFakeDeals reachable.new)
  have h: "anomalyHeap ?s =
      [\<lparr> dealId = ''d1'', anomalyScore = Fin 29 \<rparr>,
       \<lparr> dealId = ''d3'', anomalyScore = Fin 10 \<rparr>,
       \<lparr> dealId = ''d4'', anomalyScore = Fin 20 \<rparr>]"
  proof -
    have "snd (detectFakeDeals_loop threeBargains [] []) =
      [\<lparr> dealId = ''d1'', anomalyScore = Fin 29 \<rparr>,
       \<lparr> dealId = ''d3'', anomalyScore = Fin 10 \<rparr>,
       \<lparr> dealId = ''d4'', anomalyScore = Fin 20 \<rparr>]"
      by code_simp
    then show ?thesis
      by (simp only: anomalyHeap_detectFakeDeals anomalyHeap_new_Engine)
  qed
  have l: "getTopAnomalies_loop 2 0
      [\<lparr> dealId = ''d1'', anomalyScore = Fin 29 \<rparr>,
       \<lparr> dealId = ''d3'', anomalyScore = Fin 10 \<rparr>,
       \<lparr> dealId = ''d4'', anomalyScore = Fin 20 \<rparr>] [] =
      ([\<lparr> dealId = ''d1'', anomalyScore = Fin 29 \<rparr>, \<lparr> dealId = ''d4'', anomalyScore = Fin 20 \<rparr>],
       [\<lparr> dealId = ''d3'', anomalyScore = Fin 10 \<rparr>])"
    by code_simp
  have f: "fst (getTopAnomalies 2 ?s) =
      [\<lparr> dealId = ''d1'', anomalyScore = Fin 29 \<rparr>, \<lparr> dealId = ''d4'', anomalyScore = Fin 20 \<rparr>]"
    by (simp add: getTopAnomalies_def h l)
  show ?thesis
    using getTopAnomalies_returns_largest [OF r, of 2] f by (simp add: h)
qed

end
